theory Spec2Isabelle
  imports Main "HOL-Library.Sublist"
begin

section \<open>JavaScript strings and regular expressions\<close>

text \<open>
  A JavaScript string is a sequence of UTF-16 code units. The model uses \<open>string\<close>, reading
  each \<open>char\<close> as one code unit in the range 0..255, so it covers exactly the documents whose
  code units are below 256. In that range the line terminators are LF and CR, and the
  characters removed by \<open>trim\<close> are TAB, LF, VT, FF, CR, SPACE and NBSP.
\<close>

definition isLineTerminator :: "char \<Rightarrow> bool" where
  "isLineTerminator c = (c = CHR 0x0A \<or> c = CHR 0x0D)"

definition isDigit :: "char \<Rightarrow> bool" where
  "isDigit c = (c \<in> set ''0123456789'')"

definition isWhiteSpace :: "char \<Rightarrow> bool" where
  "isWhiteSpace c = (c \<in> set [CHR 0x09, CHR 0x0A, CHR 0x0B, CHR 0x0C, CHR 0x0D, CHR 0x20, CHR 0xA0])"

definition trim :: "string \<Rightarrow> string" where
  "trim s = rev (dropWhile isWhiteSpace (rev (dropWhile isWhiteSpace s)))"

subsection \<open>A backtracking matcher\<close>

text \<open>
  The patterns of the repository use literal characters, the classes \<open>.\<close> and \<open>\d\<close>, the
  quantifiers \<open>*?\<close> and \<open>+\<close> on a class, one capture group, and alternation at top level;
  none has a flag other than \<open>g\<close>. A pattern is a list of alternatives, each a sequence of
  nodes.

  The matcher returns every way of matching as a list, in the order in which a backtracking
  matcher tries them: a lazy star tries the shortest repetition first, a greedy plus the
  longest first, an earlier alternative before a later one. The head of the list is the
  match the regular expression engine reports. A way of matching is the text captured by
  group 1 so far, and the input that remains.
\<close>

datatype cclass = Dot | Digit | Ch char

fun accepts :: "cclass \<Rightarrow> char \<Rightarrow> bool" where
  "accepts Dot c = (\<not> isLineTerminator c)"
| "accepts Digit c = isDigit c"
| "accepts (Ch a) c = (c = a)"

datatype node = Atom cclass | LazyStar cclass | GreedyPlus cclass | Group "node list"

type_synonym regex = "node list list"

fun lazy_star :: "cclass \<Rightarrow> string \<Rightarrow> string list" where
  "lazy_star c [] = [[]]"
| "lazy_star c (x # xs) = (x # xs) # (if accepts c x then lazy_star c xs else [])"

fun greedy_plus :: "cclass \<Rightarrow> string \<Rightarrow> string list" where
  "greedy_plus c [] = []"
| "greedy_plus c (x # xs) = (if accepts c x then greedy_plus c xs @ [xs] else [])"

type_synonym mstate = "string option \<times> string"

fun m_node :: "node \<Rightarrow> mstate \<Rightarrow> mstate list"
  and m_seq :: "node list \<Rightarrow> mstate \<Rightarrow> mstate list" where
  "m_node (Atom c) (cap, s) =
     (case s of [] \<Rightarrow> [] | x # xs \<Rightarrow> if accepts c x then [(cap, xs)] else [])"
| "m_node (LazyStar c) (cap, s) = map (Pair cap) (lazy_star c s)"
| "m_node (GreedyPlus c) (cap, s) = map (Pair cap) (greedy_plus c s)"
| "m_node (Group ns) (cap, s) =
     map (\<lambda>(_, r). (Some (take (length s - length r) s), r)) (m_seq ns (cap, s))"
| "m_seq [] st = [st]"
| "m_seq (n # ns) st = concat (map (m_seq ns) (m_node n st))"

definition m_alts :: "regex \<Rightarrow> string \<Rightarrow> mstate list" where
  "m_alts r s = concat (map (\<lambda>ns. m_seq ns (None, s)) r)"

record match_result =
  index :: nat
  matched :: string
  group1 :: "string option"

definition first_success :: "'a list \<Rightarrow> 'a option" where
  "first_success xs = (case xs of [] \<Rightarrow> None | x # _ \<Rightarrow> Some x)"

definition m_here :: "regex \<Rightarrow> string \<Rightarrow> match_result option" where
  "m_here r s =
     map_option
       (\<lambda>(cap, rest). \<lparr>index = 0, matched = take (length s - length rest) s, group1 = cap\<rparr>)
       (first_success (m_alts r s))"

text \<open>
  \<open>exec\<close> tries the start indices from 0 upwards and reports the first match. A global
  match repeats \<open>exec\<close> from the end of the previous match (one further after an empty
  match) until the start index passes the end of the input.
\<close>

fun exec :: "regex \<Rightarrow> string \<Rightarrow> match_result option" where
  "exec r [] = m_here r []"
| "exec r (x # xs) =
     (case m_here r (x # xs) of Some m \<Rightarrow> Some m
      | None \<Rightarrow> map_option (\<lambda>m. m\<lparr>index := Suc (index m)\<rparr>) (exec r xs))"

function match_all :: "regex \<Rightarrow> string \<Rightarrow> string list" where
  "match_all r s =
     (case exec r s of None \<Rightarrow> []
      | Some m \<Rightarrow>
          (let e = index m + max 1 (length (matched m))
           in matched m # (if length s < e then [] else match_all r (drop e s))))"
  by pat_completeness auto
termination
  by (relation "measure (\<lambda>(r, s). length s)") auto

declare match_all.simps [simp del]

text \<open>The five pattern literals of \<open>parseAnalysisMetrics\<close>:
  \<^verbatim>\<open>/Severity.*?(\d+)\/10/\<close>,
  \<^verbatim>\<open>/\[SUSPICIOUS\]|\[INCONSISTENT\]|\[DETECTED\]|\[FAIL\]/g\<close>,
  \<^verbatim>\<open>/\[REPLACE\]/g\<close>, \<^verbatim>\<open>/\[REPAIR\]/g\<close> and
  \<^verbatim>\<open>/\| Primary Impact Zone \| (.*?) \|/\<close>.\<close>

definition lits :: "string \<Rightarrow> node list" where
  "lits t = map (\<lambda>c. Atom (Ch c)) t"

definition SEVERITY_RE :: regex where
  "SEVERITY_RE = [lits ''Severity'' @ [LazyStar Dot, Group [GreedyPlus Digit]] @ lits ''/10'']"

definition FRAUD_RE :: regex where
  "FRAUD_RE = [lits ''[SUSPICIOUS]'', lits ''[INCONSISTENT]'', lits ''[DETECTED]'', lits ''[FAIL]'']"

definition REPLACE_RE :: regex where
  "REPLACE_RE = [lits ''[REPLACE]'']"

definition REPAIR_RE :: regex where
  "REPAIR_RE = [lits ''[REPAIR]'']"

definition IMPACT_RE :: regex where
  "IMPACT_RE = [lits ''| Primary Impact Zone | '' @ [Group [LazyStar Dot]] @ lits '' |'']"

text \<open>\<open>String.prototype.match\<close>: without the \<open>g\<close> flag the result of one \<open>exec\<close> from index 0;
  with it, the list of all matched substrings, or \<open>null\<close> when there is none.\<close>

definition js_match :: "string \<Rightarrow> regex \<Rightarrow> match_result option" where
  "js_match s r = exec r s"

definition js_match_g :: "string \<Rightarrow> regex \<Rightarrow> string list option" where
  "js_match_g s r = (case match_all r s of [] \<Rightarrow> None | m # ms \<Rightarrow> Some (m # ms))"

definition or_empty :: "'a list option \<Rightarrow> 'a list" where
  "or_empty v = (case v of None \<Rightarrow> [] | Some xs \<Rightarrow> xs)"

subsection \<open>Numbers and \<open>parseInt\<close>\<close>

text \<open>
  A JavaScript number is a double. Integers of magnitude up to \<open>2 ^ 53\<close> are doubles and
  \<open>parseInt\<close> returns them exactly: \<open>Num v\<close>. For a longer digit run the result is the double
  the implementation approximates the value \<open>v\<close> by; the model keeps it as \<open>Approx v\<close> and
  computes nothing with it.
\<close>

datatype jsnum = Num int | Approx int | NaN

definition digit_val :: "char \<Rightarrow> int" where
  "digit_val c = int (of_char c) - 48"

definition decimal :: "string \<Rightarrow> int" where
  "decimal ds = foldl (\<lambda>a c. 10 * a + digit_val c) 0 ds"

definition parseInt10 :: "string \<Rightarrow> jsnum" where
  "parseInt10 s =
     (let s1 = dropWhile isWhiteSpace s;
          neg = (case s1 of [] \<Rightarrow> False | c # _ \<Rightarrow> c = CHR ''-'');
          s2 = (case s1 of [] \<Rightarrow> [] | c # cs \<Rightarrow> if c = CHR ''+'' \<or> c = CHR ''-'' then cs else s1);
          ds = takeWhile isDigit s2;
          v = (if neg then - decimal ds else decimal ds)
      in if ds = [] then NaN else if \<bar>v\<bar> \<le> 2 ^ 53 then Num v else Approx v)"

section \<open>Data model (types.ts)\<close>

datatype FraudRisk = LOW | MEDIUM | HIGH | CRITICAL

record AnalysisMetrics =
  severityScore :: jsnum
  fraudRisk :: FraudRisk
  replaceCount :: nat
  repairCount :: nat
  primaryImpact :: string

section \<open>The metrics extractor (App.tsx)\<close>

text \<open>
  \<open>severityMatch[1]\<close> and \<open>impactMatch[1]\<close> are \<open>undefined\<close> when group 1 took no part in
  the match. \<open>parseInt\<close> converts its argument to a string first, so it then reads the text
  \<open>undefined\<close>; calling \<open>trim\<close> on \<open>undefined\<close> throws a TypeError, which the \<open>catch\<close> block
  absorbs: it is the last statement of the \<open>try\<close> block, so the metrics gathered so far are
  returned. Nothing else in the block can throw.
\<close>

definition toString_arg :: "string option \<Rightarrow> string" where
  "toString_arg v = (case v of None \<Rightarrow> ''undefined'' | Some s \<Rightarrow> s)"

definition parseAnalysisMetrics :: "string \<Rightarrow> AnalysisMetrics" where
  "parseAnalysisMetrics markdown =
     (let metrics = \<lparr>severityScore = Num 0, fraudRisk = LOW, replaceCount = 0,
                      repairCount = 0, primaryImpact = ''Unknown''\<rparr>;
          severityMatch = js_match markdown SEVERITY_RE;
          metrics = (case severityMatch of
                       Some m \<Rightarrow> metrics\<lparr>severityScore := parseInt10 (toString_arg (group1 m))\<rparr>
                     | None \<Rightarrow> metrics);
          suspiciousCount = length (or_empty (js_match_g markdown FRAUD_RE));
          metrics = (if suspiciousCount \<ge> 2 then metrics\<lparr>fraudRisk := HIGH\<rparr>
                     else if suspiciousCount = 1 then metrics\<lparr>fraudRisk := MEDIUM\<rparr>
                     else metrics\<lparr>fraudRisk := LOW\<rparr>);
          metrics = metrics\<lparr>replaceCount := length (or_empty (js_match_g markdown REPLACE_RE))\<rparr>;
          metrics = metrics\<lparr>repairCount := length (or_empty (js_match_g markdown REPAIR_RE))\<rparr>;
          impactMatch = js_match markdown IMPACT_RE;
          metrics = (case impactMatch of
                       Some m \<Rightarrow> (case group1 m of
                                   Some c \<Rightarrow> metrics\<lparr>primaryImpact := trim c\<rparr>
                                 | None \<Rightarrow> metrics)
                     | None \<Rightarrow> metrics)
      in metrics)"

section \<open>The AI gateway (geminiService.ts)\<close>

text \<open>
  A rejected promise or a thrown exception is the \<open>Inl\<close> branch of a sum. \<open>Error m\<close> is
  \<open>new Error(m)\<close> raised by this repository; \<open>Thrown m\<close> is whatever the service client or
  the file reader raised.
\<close>

datatype js_error = Error string | Thrown string

text \<open>Three field names carry a prime, \<open>make'\<close>, \<open>context'\<close> and \<open>text'\<close>: the plain names are
  taken by the record package and by the theory language.\<close>

record VehicleDetails =
  year :: string
  make' :: string
  model :: string

text \<open>A \<open>File\<close>: its MIME type, and what \<open>FileReader.readAsDataURL\<close> produces for it
  (\<open>onerror\<close> or the data URL handed to \<open>onload\<close>).\<close>

record File =
  file_type :: string
  data_url :: "js_error + string"

record AccidentInput =
  vehicle :: VehicleDetails
  description :: string
  context' :: string
  images :: "File list"

text \<open>Parts, blobs and responses as the service client types them: every field optional.
  The response's \<open>text\<close> accessor is modelled as a field the service fills freely.\<close>

record Blob =
  mimeType :: "string option"
  data :: "string option"

record Part =
  inlineData :: "Blob option"
  text' :: "string option"

record Content =
  parts :: "Part list option"

record Candidate =
  content :: "Content option"

record GenerateContentResponse =
  response_text :: "string option"
  candidates :: "Candidate list option"

text \<open>A request: the model name and the parts. The \<open>config\<close> object of each call (system
  instruction and temperature, or aspect ratio) is a constant of the call site and is left
  out. The remote call is a parameter: any function from requests to outcomes.\<close>

record Request =
  req_model :: string
  req_parts :: "Part list"

type_synonym service = "Request \<Rightarrow> js_error + GenerateContentResponse"

definition falsy_string :: "string option \<Rightarrow> bool" where
  "falsy_string v = (case v of None \<Rightarrow> True | Some s \<Rightarrow> s = [])"

fun split_comma :: "string \<Rightarrow> string list" where
  "split_comma [] = [[]]"
| "split_comma (c # cs) =
     (if c = CHR '','' then [] # split_comma cs
      else (case split_comma cs of [] \<Rightarrow> [[c]] | w # ws \<Rightarrow> (c # w) # ws))"

definition fileToBase64 :: "File \<Rightarrow> js_error + string option" where
  "fileToBase64 file =
     (case data_url file of
        Inl e \<Rightarrow> Inl e
      | Inr result \<Rightarrow>
          Inr (case split_comma result of _ # base64 # _ \<Rightarrow> Some base64 | _ \<Rightarrow> None))"

fun encode_images :: "File list \<Rightarrow> js_error + Part list" where
  "encode_images [] = Inr []"
| "encode_images (img # rest) =
     (case fileToBase64 img of
        Inl e \<Rightarrow> Inl e
      | Inr base64Data \<Rightarrow>
          (case encode_images rest of
             Inl e \<Rightarrow> Inl e
           | Inr ps \<Rightarrow>
               Inr (\<lparr>inlineData = Some \<lparr>mimeType = Some (file_type img), data = base64Data\<rparr>,
                      text' = None\<rparr> # ps)))"

fun join_lines :: "string list \<Rightarrow> string" where
  "join_lines [] = []"
| "join_lines [l] = l"
| "join_lines (l # ls) = l @ ''\<newline>'' @ join_lines ls"

function show_nat :: "nat \<Rightarrow> string" where
  "show_nat n =
     (if n < 10 then [char_of (48 + n)]
      else show_nat (n div 10) @ [char_of (48 + n mod 10)])"
  by pat_completeness auto
termination
  by (relation "measure id") auto

declare show_nat.simps [simp del]

definition userPrompt :: "AccidentInput \<Rightarrow> string" where
  "userPrompt input = join_lines
     ['''',
      ''    Perform a Forensic Damage & Fraud Analysis based on:'',
      '''',
      ''    Vehicle Details: '' @ year (vehicle input) @ '' '' @ make' (vehicle input) @ '' '' @
        model (vehicle input),
      ''    '',
      ''    Accident Description: '' @ description input,
      ''    '',
      ''    Context/Conditions: '' @
        (if context' input = [] then ''None provided'' else context' input),
      ''    '',
      ''    '' @
        (if length (images input) > 0
         then ''Analyze the '' @ show_nat (length (images input)) @
              '' attached images combined with the text. Scrutinize for inconsistencies '' @
              ''across angles, rust, or '' @ [CHR 0x27] @ ''staged'' @ [CHR 0x27] @
              '' damage patterns.''
         else ''Analyze based on text description.''),
      ''  '']"

definition analysisRequest :: "AccidentInput \<Rightarrow> Part list \<Rightarrow> Request" where
  "analysisRequest input image_parts =
     \<lparr>req_model = ''gemini-2.5-flash'',
      req_parts = image_parts @ [\<lparr>inlineData = None, text' = Some (userPrompt input)\<rparr>]\<rparr>"

definition analyzeAccident :: "string option \<Rightarrow> service \<Rightarrow> AccidentInput \<Rightarrow> js_error + string" where
  "analyzeAccident API_KEY generateContent input =
     (if falsy_string API_KEY then Inl (Error ''API Key is missing'')
      else case encode_images (images input) of
        Inl e \<Rightarrow> Inl e
      | Inr image_parts \<Rightarrow>
          (case generateContent (analysisRequest input image_parts) of
             Inl e \<Rightarrow> Inl e
           | Inr response \<Rightarrow>
               Inr (if falsy_string (response_text response)
                    then ''Analysis failed to generate content.''
                    else toString_arg (response_text response))))"

subsection \<open>The diagram\<close>

text \<open>\<open>toLowerCase\<close> on code units below 256: the ASCII capitals and the Latin-1 capitals
  (all of 0xC0..0xDE but the multiplication sign) move up by 32; everything else stays.\<close>

definition lower_char :: "char \<Rightarrow> char" where
  "lower_char c =
     (let n = (of_char c :: nat)
      in if (65 \<le> n \<and> n \<le> 90) \<or> (192 \<le> n \<and> n \<le> 222 \<and> n \<noteq> 215)
         then char_of (n + 32) else c)"

definition toLowerCase :: "string \<Rightarrow> string" where
  "toLowerCase s = map lower_char s"

text \<open>\<open>String.prototype.includes\<close>\<close>

fun js_includes :: "string \<Rightarrow> string \<Rightarrow> bool" where
  "js_includes [] t = (t = [])"
| "js_includes (x # xs) t = (prefix t (x # xs) \<or> js_includes xs t)"

definition RIGHT_INSTRUCTION :: string where
  "RIGHT_INSTRUCTION = ''EXTREMELY IMPORTANT: The damage is on the RIGHT side. You MUST render the RED impact vector on the RIGHT SIDE of the image canvas.''"

definition LEFT_INSTRUCTION :: string where
  "LEFT_INSTRUCTION = ''EXTREMELY IMPORTANT: The damage is on the LEFT side. You MUST render the RED impact vector on the LEFT SIDE of the image canvas.''"

definition REAR_INSTRUCTION :: string where
  "REAR_INSTRUCTION = ''EXTREMELY IMPORTANT: The damage is on the REAR. You MUST render the RED impact vector at the BOTTOM of the image canvas.''"

definition FRONT_INSTRUCTION :: string where
  "FRONT_INSTRUCTION = ''EXTREMELY IMPORTANT: The damage is on the FRONT. You MUST render the RED impact vector at the TOP of the image canvas.''"

definition locationInstruction :: "string \<Rightarrow> string" where
  "locationInstruction desc =
     (let descLower = toLowerCase desc
      in if js_includes descLower ''right'' \<or> js_includes descLower ''passenger'' \<or>
            js_includes descLower ''rh''
         then RIGHT_INSTRUCTION
         else if js_includes descLower ''left'' \<or> js_includes descLower ''driver'' \<or>
                 js_includes descLower ''lh''
         then LEFT_INSTRUCTION
         else if js_includes descLower ''rear'' \<or> js_includes descLower ''back''
         then REAR_INSTRUCTION
         else if js_includes descLower ''front''
         then FRONT_INSTRUCTION
         else '''')"

definition diagramPrompt :: "AccidentInput \<Rightarrow> string" where
  "diagramPrompt input = join_lines
     ['''',
      ''      Create a SIMPLE, MINIMALIST LINE DIAGRAM of a '' @ year (vehicle input) @ '' '' @
        make' (vehicle input) @ '' '' @ model (vehicle input) @ ''.'',
      ''      '',
      ''      VIEWPOINT: Strictly Top-down view (Plan View).'',
      ''      '',
      ''      ORIENTATION RULES (CRITICAL):'',
      ''      1. The FRONT of the vehicle MUST point to the TOP of the image.'',
      ''      2. The REAR of the vehicle MUST point to the BOTTOM of the image.'',
      ''      '',
      ''      DAMAGE SCENARIO: '' @ description input @ ''.'',
      ''      '',
      ''      '' @ locationInstruction (description input),
      ''      '',
      ''      VISUAL STYLE:'',
      ''      - WHITE background (Paper style).'',
      ''      - Simple BLACK outlines for the vehicle body.'',
      ''      - NO shading, NO blueprint grid, NO dark background.'',
      ''      - Medical/Forensic diagram style.'',
      ''      - Clean, vector-like lines.'',
      ''      '',
      ''      ANNOTATIONS:'',
      ''      - Draw a BOLD RED ARROW indicating the direction of the impact force.'',
      ''      - Mark the specific impact zone with a RED outline or simple red shading.'',
      ''      - The diagram should look like a clean accident report sketch.'',
      ''    '']"

definition diagramRequest :: "AccidentInput \<Rightarrow> Request" where
  "diagramRequest input =
     \<lparr>req_model = ''gemini-2.5-flash-image'',
      req_parts = [\<lparr>inlineData = None, text' = Some (diagramPrompt input)\<rparr>]\<rparr>"

text \<open>\<open>response.candidates?.[0]?.content?.parts || []\<close>\<close>

definition response_parts :: "GenerateContentResponse \<Rightarrow> Part list" where
  "response_parts response =
     (case candidates response of
        None \<Rightarrow> []
      | Some cs \<Rightarrow>
          (case cs of
             [] \<Rightarrow> []
           | c # _ \<Rightarrow>
               (case content c of
                  None \<Rightarrow> []
                | Some ct \<Rightarrow> (case parts ct of None \<Rightarrow> [] | Some ps \<Rightarrow> ps))))"

fun first_inline_image :: "Part list \<Rightarrow> string option" where
  "first_inline_image [] = None"
| "first_inline_image (part # rest) =
     (case inlineData part of
        Some blob \<Rightarrow> Some (''data:image/png;base64,'' @ toString_arg (data blob))
      | None \<Rightarrow> first_inline_image rest)"

definition generateImpactDiagram :: "string option \<Rightarrow> service \<Rightarrow> AccidentInput \<Rightarrow> string option" where
  "generateImpactDiagram API_KEY generateContent input =
     (if falsy_string API_KEY then None
      else case generateContent (diagramRequest input) of
        Inl e \<Rightarrow> None
      | Inr response \<Rightarrow> first_inline_image (response_parts response))"

section \<open>Orchestration (App.tsx)\<close>

datatype AppState = IDLE | ANALYZING | COMPLETE | ERROR

record AnalysisResult =
  markdown :: string
  diagram :: "string option"
  timestamp :: nat
  metrics :: AnalysisMetrics

record App =
  appState :: AppState
  result :: "AnalysisResult option"
  error :: "string option"
  analyzedImages :: "File list option"

definition initialApp :: App where
  "initialApp = \<lparr>appState = IDLE, result = None, error = None, analyzedImages = None\<rparr>"

text \<open>
  \<open>Promise.all\<close> rejects exactly when one of its promises rejects. \<open>generateImpactDiagram\<close>
  has no rejecting path, so the \<open>catch\<close> branch runs exactly when \<open>analyzeAccident\<close> rejects.
  \<open>now\<close> is the value of \<open>new Date()\<close>.
\<close>

definition handleAnalysis :: "string option \<Rightarrow> service \<Rightarrow> nat \<Rightarrow> AccidentInput \<Rightarrow> App \<Rightarrow> App" where
  "handleAnalysis API_KEY generateContent now input app =
     (let app = app\<lparr>appState := ANALYZING, error := None, analyzedImages := Some (images input)\<rparr>
      in case analyzeAccident API_KEY generateContent input of
        Inl err \<Rightarrow>
          app\<lparr>error := Some ''Failed to analyze the accident data. Please verify your network connection.'',
              appState := ERROR\<rparr>
      | Inr md \<Rightarrow>
          (let diagram = generateImpactDiagram API_KEY generateContent input;
               metrics = parseAnalysisMetrics md
           in app\<lparr>result := Some \<lparr>markdown = md, diagram = diagram, timestamp = now,
                                    metrics = metrics\<rparr>,
                  appState := COMPLETE\<rparr>))"

definition resetApp :: "App \<Rightarrow> App" where
  "resetApp app = app\<lparr>appState := IDLE, result := None, error := None, analyzedImages := None\<rparr>"

text \<open>The states the application can be in between events: the form that calls
  \<open>handleAnalysis\<close> is rendered in state \<open>IDLE\<close> only; the reset button in any state.\<close>

inductive reachable :: "App \<Rightarrow> bool" where
  init: "reachable initialApp"
| submit: "reachable app \<Longrightarrow> appState app = IDLE \<Longrightarrow>
           reachable (handleAnalysis API_KEY generateContent now input app)"
| reset: "reachable app \<Longrightarrow> reachable (resetApp app)"

section \<open>The extraction rules as the specification words them\<close>

text \<open>
  Both single-match rules look for a fixed word, then a gap of intervening characters, then
  a tail. An occurrence at start index \<open>i\<close> with a gap of \<open>g\<close> characters: the word \<open>pre\<close>
  at index \<open>i\<close>, then \<open>g\<close> characters that all satisfy \<open>gap_ok\<close>, then a rest that satisfies
  \<open>tail_ok\<close>. The first occurrence has the least start index; non-greedy means the least
  gap for that start.
\<close>

definition occurrence ::
  "string \<Rightarrow> (char \<Rightarrow> bool) \<Rightarrow> (string \<Rightarrow> bool) \<Rightarrow> string \<Rightarrow> nat \<Rightarrow> nat \<Rightarrow> bool" where
  "occurrence pre gap_ok tail_ok d i g =
     (prefix pre (drop i d) \<and> i + length pre + g \<le> length d \<and>
      list_all gap_ok (take g (drop (i + length pre) d)) \<and>
      tail_ok (drop (i + length pre + g) d))"

definition shortest_gap ::
  "string \<Rightarrow> (char \<Rightarrow> bool) \<Rightarrow> (string \<Rightarrow> bool) \<Rightarrow> string \<Rightarrow> nat \<Rightarrow> nat option" where
  "shortest_gap pre gap_ok tail_ok d i =
     List.find (occurrence pre gap_ok tail_ok d i) [0..<Suc (length d)]"

definition first_occurrence ::
  "string \<Rightarrow> (char \<Rightarrow> bool) \<Rightarrow> (string \<Rightarrow> bool) \<Rightarrow> string \<Rightarrow> (nat \<times> nat) option" where
  "first_occurrence pre gap_ok tail_ok d =
     (case List.find (\<lambda>i. shortest_gap pre gap_ok tail_ok d i \<noteq> None) [0..<Suc (length d)] of
        None \<Rightarrow> None
      | Some i \<Rightarrow> map_option (Pair i) (shortest_gap pre gap_ok tail_ok d i))"

definition any_char :: "char \<Rightarrow> bool" where
  "any_char c = True"

definition same_line :: "char \<Rightarrow> bool" where
  "same_line c = (\<not> isLineTerminator c)"

text \<open>Severity: a run of digits followed by \<open>/10\<close>; the digit run is the score.\<close>

definition digits_slash10 :: "string \<Rightarrow> string option" where
  "digits_slash10 r =
     (if takeWhile isDigit r \<noteq> [] \<and> prefix ''/10'' (dropWhile isDigit r)
      then Some (takeWhile isDigit r) else None)"

definition has_digits_slash10 :: "string \<Rightarrow> bool" where
  "has_digits_slash10 r = (digits_slash10 r \<noteq> None)"

definition spec_severity :: "(char \<Rightarrow> bool) \<Rightarrow> string \<Rightarrow> jsnum" where
  "spec_severity gap_ok d =
     (case first_occurrence ''Severity'' gap_ok has_digits_slash10 d of
        None \<Rightarrow> Num 0
      | Some (i, g) \<Rightarrow>
          (case digits_slash10 (drop (i + 8 + g) d) of
             None \<Rightarrow> Num 0
           | Some ds \<Rightarrow> parseInt10 ds))"

text \<open>Primary impact: the table row \<open>| Primary Impact Zone | <captured text> |\<close>.\<close>

definition ROW_HEAD :: string where
  "ROW_HEAD = ''| Primary Impact Zone | ''"

definition spec_primaryImpact :: "string \<Rightarrow> string" where
  "spec_primaryImpact d =
     (case first_occurrence ROW_HEAD same_line (prefix '' |'') d of
        None \<Rightarrow> ''Unknown''
      | Some (i, g) \<Rightarrow> trim (take g (drop (i + 24) d)))"

definition no_severity_before :: "string \<Rightarrow> nat \<Rightarrow> bool" where
  "no_severity_before d n =
     list_all (\<lambda>i. shortest_gap ''Severity'' same_line has_digits_slash10 d i = None) [0..<n]"

definition no_row_before :: "string \<Rightarrow> nat \<Rightarrow> bool" where
  "no_row_before d n =
     list_all (\<lambda>i. shortest_gap ROW_HEAD same_line (prefix '' |'') d i = None) [0..<n]"

text \<open>Token counts: the number of positions of the document at which the token starts.\<close>

fun occurrences :: "string \<Rightarrow> string \<Rightarrow> nat" where
  "occurrences t [] = (if prefix t [] then 1 else 0)"
| "occurrences t (x # xs) = (if prefix t (x # xs) then 1 else 0) + occurrences t xs"

definition spec_fraudRisk :: "string \<Rightarrow> FraudRisk" where
  "spec_fraudRisk d =
     (let n = occurrences ''[SUSPICIOUS]'' d + occurrences ''[INCONSISTENT]'' d +
              occurrences ''[DETECTED]'' d + occurrences ''[FAIL]'' d
      in if n = 0 then LOW else if n = 1 then MEDIUM else HIGH)"

text \<open>The counted tokens are bracketed words: an opening bracket, then no further one; and
  no token of a pattern is the beginning of another.\<close>

definition bracketed :: "string \<Rightarrow> bool" where
  "bracketed t = (case t of [] \<Rightarrow> False | c # b \<Rightarrow> c = CHR ''['' \<and> CHR ''['' \<notin> set b)"

definition tokens_ok :: "string list \<Rightarrow> bool" where
  "tokens_ok ts = (distinct ts \<and> list_all bracketed ts \<and>
                   list_all (\<lambda>t. list_all (\<lambda>t'. prefix t t' \<longrightarrow> t = t') ts) ts)"

definition count_tokens :: "string list \<Rightarrow> string \<Rightarrow> nat" where
  "count_tokens ts d = sum_list (map (\<lambda>t. occurrences t d) ts)"

text \<open>The keyword groups of the impact-side hint: the lowercased description contains one
  of the keywords.\<close>

definition mentions :: "string \<Rightarrow> string list \<Rightarrow> bool" where
  "mentions desc kws = list_ex (js_includes (toLowerCase desc)) kws"

text \<open>The diagram call raises, or its response holds no inline image.\<close>

definition diagram_call_fails :: "service \<Rightarrow> AccidentInput \<Rightarrow> bool" where
  "diagram_call_fails generateContent input =
     (case generateContent (diagramRequest input) of
        Inl e \<Rightarrow> True
      | Inr response \<Rightarrow> list_all (\<lambda>p. inlineData p = None) (response_parts response))"

text \<open>The same service, reporting other MIME types for its inline parts.\<close>

definition retag_part :: "(string option \<Rightarrow> string option) \<Rightarrow> Part \<Rightarrow> Part" where
  "retag_part f p = p\<lparr>inlineData := map_option (\<lambda>b. b\<lparr>mimeType := f (mimeType b)\<rparr>) (inlineData p)\<rparr>"

definition retag_response ::
  "(string option \<Rightarrow> string option) \<Rightarrow> GenerateContentResponse \<Rightarrow> GenerateContentResponse" where
  "retag_response f response =
     response\<lparr>candidates :=
       map_option
         (map (\<lambda>c. c\<lparr>content :=
            map_option (\<lambda>ct. ct\<lparr>parts := map_option (map (retag_part f)) (parts ct)\<rparr>) (content c)\<rparr>))
         (candidates response)\<rparr>"

definition with_mime :: "(string option \<Rightarrow> string option) \<Rightarrow> service \<Rightarrow> service" where
  "with_mime f generateContent req =
     (case generateContent req of Inl e \<Rightarrow> Inl e | Inr response \<Rightarrow> Inr (retag_response f response))"

section \<open>Fixtures\<close>

text \<open>Table rows of a report in the layout the system instruction asks for, with the
  findings of the end-to-end scenario.\<close>

definition scenario_report :: string where
  "scenario_report =
     ''| Primary Impact Zone | Rear Bumper Reinforcement |\<newline>| Impact Severity (1-10) | 8/10 |\<newline>| Story Consistency | Height mismatch | [INCONSISTENT] |\<newline>| Rear Bumper Reinforcement | [REPLACE] | Kinked |\<newline>| Rear Bumper Cover | [REPAIR] | Scrape |\<newline>| Trunk Lid | [REPAIR] | Dent |''"

text \<open>The rows of the scenario, and a finding of the physics check that fails.\<close>

definition extra_fail_report :: string where
  "extra_fail_report =
     ''| Primary Impact Zone | Rear Bumper Reinforcement |\<newline>| Impact Severity (1-10) | 8/10 |\<newline>[INCONSISTENT] [FAIL] [REPLACE] [REPAIR] [REPAIR]''"

definition two_line_report :: string where
  "two_line_report = ''Severity\<newline>8/10''"

definition two_row_report :: string where
  "two_row_report =
     ''| Primary Impact Zone | Hood |\<newline>| Primary Impact Zone | Rear Bumper |''"

definition one_row_report :: string where
  "one_row_report = ''# | Primary Impact Zone | Rear Bumper | x''"

definition off_scale_report :: string where
  "off_scale_report = ''| Impact Severity (1-10) | 11/10 |''"

definition scenario_input :: AccidentInput where
  "scenario_input =
     \<lparr>vehicle = \<lparr>year = ''2022'', make' = ''Toyota'', model = ''Camry''\<rparr>,
      description = ''rear-ended at 20mph'', context' = [], images = []\<rparr>"

definition empty_response :: GenerateContentResponse where
  "empty_response = \<lparr>response_text = Some [], candidates = None\<rparr>"

definition empty_text_service :: service where
  "empty_text_service req = Inr empty_response"

text \<open>A service that writes the report and has no image model.\<close>

definition report_only_service :: service where
  "report_only_service req =
     (if req_model req = ''gemini-2.5-flash''
      then Inr \<lparr>response_text = Some off_scale_report, candidates = None\<rparr>
      else Inl (Thrown ''model not available''))"

text \<open>A service that answers every request with the report, a caption and a JPEG image.\<close>

definition jpeg_response :: GenerateContentResponse where
  "jpeg_response =
     \<lparr>response_text = Some off_scale_report,
      candidates = Some [\<lparr>content = Some \<lparr>parts = Some
        [\<lparr>inlineData = None, text' = Some ''diagram''\<rparr>,
         \<lparr>inlineData = Some \<lparr>mimeType = Some ''image/jpeg'', data = Some ''QUJD''\<rparr>,
          text' = None\<rparr>]\<rparr>\<rparr>]\<rparr>"

definition jpeg_service :: service where
  "jpeg_service req = Inr jpeg_response"

definition desc_right_rear :: string where
  "desc_right_rear = ''rear quarter hit on the right by a Passenger car''"

definition desc_driver_back :: string where
  "desc_driver_back = ''Driver door and back bumper''"

definition desc_back_front :: string where
  "desc_back_front = ''Back and front hit''"

definition desc_front :: string where
  "desc_front = ''Front bumper''"

section \<open>Facts about the matcher\<close>

lemma m_seq_lits:
  "m_seq (lits t @ ns) (cap, s) = (if prefix t s then m_seq ns (cap, drop (length t) s) else [])"
proof (induction t arbitrary: s)
  case Nil
  then show ?case by (simp add: lits_def)
next
  case (Cons a t)
  have step: "lits (a # t) @ ns = Atom (Ch a) # (lits t @ ns)"
    by (simp add: lits_def)
  show ?case
  proof (cases s)
    case Nil
    then show ?thesis by (simp add: step)
  next
    case (Cons x xs)
    then show ?thesis using Cons.IH [of xs] by (simp add: step)
  qed
qed

lemma lazy_star_upt:
  "lazy_star c u = map (\<lambda>g. drop g u) [0..<Suc (length (takeWhile (accepts c) u))]"
proof (induction u)
  case Nil
  then show ?case by simp
next
  case (Cons x xs)
  have shift: "map (\<lambda>g. drop g (x # xs)) [Suc 0..<Suc (Suc n)] = map (\<lambda>g. drop g xs) [0..<Suc n]" for n
    unfolding map_Suc_upt [symmetric] by (simp del: upt_Suc)
  show ?case
  proof (cases "accepts c x")
    case True
    then show ?thesis using Cons.IH shift [of "length (takeWhile (accepts c) xs)"]
      by (simp add: upt_conv_Cons del: upt_Suc)
  next
    case False
    then show ?thesis by simp
  qed
qed

lemma greedy_plus_tail:
  assumes "t \<noteq> []" and "\<not> accepts c (hd t)"
  shows "concat (map (\<lambda>r'. if prefix t r' then [f r'] else []) (greedy_plus c r)) =
         (if takeWhile (accepts c) r \<noteq> [] \<and> prefix t (dropWhile (accepts c) r)
          then [f (dropWhile (accepts c) r)] else [])"
proof (induction r)
  case Nil
  then show ?case by simp
next
  case (Cons x xs)
  show ?case
  proof (cases "accepts c x")
    case False
    then show ?thesis by simp
  next
    case True
    show ?thesis
    proof (cases xs)
      case Nil
      then show ?thesis using True by simp
    next
      case (Cons y ys)
      have np: "accepts c y \<Longrightarrow> \<not> prefix t xs"
        using assms Cons by (cases t) auto
      show ?thesis using True Cons.IH np Cons by auto
    qed
  qed
qed

lemma first_success_concat_map:
  "first_success (concat (map F xs)) =
     (case List.find (\<lambda>x. F x \<noteq> []) xs of None \<Rightarrow> None | Some x \<Rightarrow> first_success (F x))"
proof (induction xs)
  case Nil
  then show ?case by (simp add: first_success_def)
next
  case (Cons x xs)
  then show ?case by (cases "F x") (simp_all add: first_success_def)
qed

lemma find_map_comp: "List.find P (map f xs) = map_option f (List.find (\<lambda>x. P (f x)) xs)"
  by (induction xs) simp_all

lemma find_append_case:
  "List.find P (xs @ ys) = (case List.find P xs of None \<Rightarrow> List.find P ys | Some x \<Rightarrow> Some x)"
  by (induction xs) simp_all

lemma find_upt_Suc:
  "List.find P [0..<Suc (Suc n)] =
     (if P 0 then Some 0 else map_option Suc (List.find (\<lambda>i. P (Suc i)) [0..<Suc n]))"
proof -
  have "[0..<Suc (Suc n)] = 0 # map Suc [0..<Suc n]"
    unfolding map_Suc_upt by (simp add: upt_conv_Cons del: upt_Suc)
  then show ?thesis by (simp add: find_map_comp del: upt_Suc)
qed

lemma find_upt_bound:
  assumes "k \<le> n"
  shows "List.find (\<lambda>g. g \<le> k \<and> Q g) [0..<Suc n] = List.find Q [0..<Suc k]"
proof -
  obtain m where n: "n = k + m"
    using assms le_iff_add by blast
  have split: "[0..<Suc n] = [0..<Suc k] @ [Suc k..<Suc n]"
    using upt_add_eq_append [of 0 "Suc k" m] by (simp add: n)
  have a: "List.find (\<lambda>g. g \<le> k \<and> Q g) [0..<Suc k] = List.find Q [0..<Suc k]"
    by (rule find_cong) auto
  have b: "List.find (\<lambda>g. g \<le> k \<and> Q g) [Suc k..<Suc n] = None"
    by (auto simp: find_None_iff)
  show ?thesis
    unfolding split find_append_case a b by (simp split: option.splits)
qed

lemma take_all_iff:
  "(g \<le> length u \<and> list_all P (take g u)) \<longleftrightarrow> g \<le> length (takeWhile P u)"
proof (induction u arbitrary: g)
  case Nil
  then show ?case by simp
next
  case (Cons x xs)
  then show ?case by (cases g) auto
qed

lemma m_here_index: "m_here r s = Some m \<Longrightarrow> index m = 0"
  by (auto simp: m_here_def)

lemma exec_find:
  "exec r s =
     (case List.find (\<lambda>i. m_here r (drop i s) \<noteq> None) [0..<Suc (length s)] of
        None \<Rightarrow> None
      | Some i \<Rightarrow> map_option (\<lambda>m. m\<lparr>index := i\<rparr>) (m_here r (drop i s)))"
proof (induction s)
  case Nil
  then show ?case by (cases "m_here r []") (auto dest: m_here_index)
next
  case (Cons x xs)
  show ?case
  proof (cases "m_here r (x # xs)")
    case (Some m)
    then show ?thesis
      using m_here_index [OF Some] by (simp add: find_upt_Suc del: upt_Suc)
  next
    case None
    then show ?thesis
      using Cons.IH
      by (simp add: find_upt_Suc option.map_comp comp_def del: upt_Suc split: option.splits)
  qed
qed

lemma exec_group1:
  "map_option group1 (exec r s) =
     (case List.find (\<lambda>i. m_here r (drop i s) \<noteq> None) [0..<Suc (length s)] of
        None \<Rightarrow> None
      | Some i \<Rightarrow> map_option group1 (m_here r (drop i s)))"
  unfolding exec_find by (simp add: option.map_comp comp_def split: option.splits)

lemma take_length_dropWhile: "take (length r - length (dropWhile P r)) r = takeWhile P r"
proof -
  have "length r - length (dropWhile P r) = length (takeWhile P r)"
    by (metis add_diff_cancel_right' length_append takeWhile_dropWhile_id)
  then show ?thesis
    by (metis append_eq_conv_conj takeWhile_dropWhile_id)
qed

lemma m_seq_lits0:
  "m_seq (lits t) (cap, s) = (if prefix t s then [(cap, drop (length t) s)] else [])"
  using m_seq_lits [of t "[]" cap s] by simp

lemma digit_group_slash10:
  "m_seq (Group [GreedyPlus Digit] # lits ''/10'') (cap, r) =
     (case digits_slash10 r of None \<Rightarrow> []
      | Some ds \<Rightarrow> [(Some ds, drop 3 (dropWhile isDigit r))])"
proof -
  have "m_seq (Group [GreedyPlus Digit] # lits ''/10'') (cap, r) =
        concat (map (\<lambda>r'. if prefix ''/10'' r'
                           then [(Some (take (length r - length r') r), drop 3 r')] else [])
                    (greedy_plus Digit r))"
    by (simp add: comp_def m_seq_lits0 map_concat numeral_3_eq_3 cong: if_cong)
  also have "\<dots> = (if takeWhile (accepts Digit) r \<noteq> [] \<and> prefix ''/10'' (dropWhile (accepts Digit) r)
                    then [(Some (take (length r - length (dropWhile (accepts Digit) r)) r),
                           drop 3 (dropWhile (accepts Digit) r))] else [])"
    by (rule greedy_plus_tail) (simp_all add: isDigit_def)
  also have "\<dots> = (case digits_slash10 r of None \<Rightarrow> []
                    | Some ds \<Rightarrow> [(Some ds, drop 3 (dropWhile isDigit r))])"
  proof -
    have eq: "accepts Digit = isDigit" by (rule ext) simp
    show ?thesis unfolding eq by (simp add: digits_slash10_def take_length_dropWhile)
  qed
  finally show ?thesis .
qed

lemma find_SomeD: "List.find P xs = Some x \<Longrightarrow> P x \<and> x \<in> set xs"
  by (induction xs) (auto split: if_splits)

lemma m_here_group1: "map_option group1 (m_here r s) = map_option fst (first_success (m_alts r s))"
  by (cases "first_success (m_alts r s)") (auto simp: m_here_def)

lemma lazy_star_first:
  "first_success (concat (map F (lazy_star c u))) =
     (case List.find (\<lambda>g. F (drop g u) \<noteq> []) [0..<Suc (length (takeWhile (accepts c) u))] of
        None \<Rightarrow> None
      | Some g \<Rightarrow> first_success (F (drop g u)))"
  by (simp only: first_success_concat_map lazy_star_upt find_map_comp) (simp split: option.splits)

lemma accepts_Dot: "accepts Dot = same_line"
  by (rule ext) (simp add: same_line_def)

subsection \<open>The shortest gap, computed along the line\<close>

lemma shortest_gap_eq:
  assumes "pre \<noteq> []"
  shows "shortest_gap pre gap_ok Q d i =
     (if prefix pre (drop i d)
      then List.find (\<lambda>g. Q (drop g (drop (i + length pre) d)))
             [0..<Suc (length (takeWhile gap_ok (drop (i + length pre) d)))]
      else None)"
proof (cases "prefix pre (drop i d)")
  case False
  then show ?thesis
    by (simp add: shortest_gap_def occurrence_def find_None_iff)
next
  case True
  let ?u = "drop (i + length pre) d"
  let ?k = "length (takeWhile gap_ok ?u)"
  let ?Q = "\<lambda>g. Q (drop g ?u)"
  have "length pre \<le> length (drop i d)"
    using True by (rule prefix_length_le)
  then have len: "i + length pre \<le> length d" using assms by (cases pre) auto
  have occ: "occurrence pre gap_ok Q d i g \<longleftrightarrow> g \<le> ?k \<and> ?Q g" for g
  proof -
    have a: "i + length pre + g \<le> length d \<longleftrightarrow> g \<le> length ?u" using len by auto
    have b: "drop (i + length pre + g) d = drop g ?u" by (simp add: add.commute)
    show ?thesis
      unfolding occurrence_def a b using True take_all_iff [of g ?u gap_ok] by blast
  qed
  have fn: "occurrence pre gap_ok Q d i = (\<lambda>g. g \<le> ?k \<and> ?Q g)"
    by (rule ext) (rule occ)
  have "?k \<le> length ?u" by (rule length_takeWhile_le)
  then have k: "?k \<le> length d" by simp
  have "shortest_gap pre gap_ok Q d i = List.find ?Q [0..<Suc ?k]"
    unfolding shortest_gap_def fn by (rule find_upt_bound [OF k])
  then show ?thesis using True by (simp only: if_True)
qed

lemma first_occurrence_valid:
  "first_occurrence pre gap_ok Q d = Some (i, g) \<Longrightarrow> occurrence pre gap_ok Q d i g"
  by (auto simp: first_occurrence_def shortest_gap_def split: option.splits dest: find_SomeD)

lemma exec_first_occurrence:
  assumes here: "\<And>i. map_option group1 (m_here R (drop i d)) =
                   (case shortest_gap pre gap_ok Q d i of None \<Rightarrow> None | Some g \<Rightarrow> Some (V i g))"
  shows "map_option group1 (exec R d) =
           (case first_occurrence pre gap_ok Q d of None \<Rightarrow> None | Some (i, g) \<Rightarrow> Some (V i g))"
proof -
  have ne: "m_here R (drop i d) \<noteq> None \<longleftrightarrow> shortest_gap pre gap_ok Q d i \<noteq> None" for i
    using here [of i] by (cases "m_here R (drop i d)") (auto split: option.splits)
  show ?thesis
    unfolding exec_group1 first_occurrence_def ne
    by (auto simp: here split: option.splits)
qed

subsection \<open>The severity pattern\<close>

lemma digit_group_nonempty:
  "m_seq (Group [GreedyPlus Digit] # lits ''/10'') (cap, r) \<noteq> [] \<longleftrightarrow> has_digits_slash10 r"
  unfolding digit_group_slash10 has_digits_slash10_def by (simp split: option.splits)

lemma sev_tail_first:
  "map_option fst (first_success
      (m_seq (LazyStar Dot # Group [GreedyPlus Digit] # lits ''/10'') (None, u))) =
   (case List.find (\<lambda>g. has_digits_slash10 (drop g u))
           [0..<Suc (length (takeWhile same_line u))] of
      None \<Rightarrow> None
    | Some g \<Rightarrow> Some (digits_slash10 (drop g u)))"
proof -
  let ?K = "Group [GreedyPlus Digit] # lits ''/10''"
  let ?f = "List.find (\<lambda>g. has_digits_slash10 (drop g u))
              [0..<Suc (length (takeWhile same_line u))]"
  have "m_seq (LazyStar Dot # ?K) (None, u) =
        concat (map (\<lambda>r. m_seq ?K (None, r)) (lazy_star Dot u))"
    by (simp add: comp_def)
  then have A: "first_success (m_seq (LazyStar Dot # ?K) (None, u)) =
      (case ?f of None \<Rightarrow> None
       | Some g \<Rightarrow> first_success (m_seq ?K (None, drop g u)))"
    by (simp only: lazy_star_first digit_group_nonempty accepts_Dot)
  show ?thesis
  proof (cases ?f)
    case None
    then show ?thesis unfolding A by simp
  next
    case (Some g)
    then have "has_digits_slash10 (drop g u)"
      by (blast dest: find_SomeD)
    then obtain ds where ds: "digits_slash10 (drop g u) = Some ds"
      by (auto simp: has_digits_slash10_def)
    have "first_success (m_seq ?K (None, drop g u)) =
          Some (Some ds, drop 3 (dropWhile isDigit (drop g u)))"
      unfolding digit_group_slash10 ds by (simp add: first_success_def)
    then show ?thesis unfolding A Some by (simp add: ds)
  qed
qed

lemma len_Severity: "length ''Severity'' = 8"
  by simp

lemma Severity_nonempty: "''Severity'' \<noteq> []"
  by simp

lemma m_alts_severity:
  "m_alts SEVERITY_RE t =
     (if prefix ''Severity'' t
      then m_seq (LazyStar Dot # Group [GreedyPlus Digit] # lits ''/10'') (None, drop 8 t)
      else [])"
  unfolding m_alts_def SEVERITY_RE_def
  by (simp only: list.map concat.simps append_Nil2 append.simps m_seq_lits len_Severity)

lemma sev_here:
  "map_option group1 (m_here SEVERITY_RE (drop i d)) =
     (case shortest_gap ''Severity'' same_line has_digits_slash10 d i of
        None \<Rightarrow> None
      | Some g \<Rightarrow> Some (digits_slash10 (drop (i + 8 + g) d)))"
proof (cases "prefix ''Severity'' (drop i d)")
  case False
  then show ?thesis
    unfolding m_here_group1 m_alts_severity shortest_gap_eq [OF Severity_nonempty]
    by (simp add: first_success_def)
next
  case True
  have a: "drop 8 (drop i d) = drop (i + 8) d" by (simp add: add.commute)
  have b: "drop (i + 8 + g) d = drop g (drop (i + 8) d)" for g by (simp add: add.commute)
  show ?thesis
    unfolding m_here_group1 m_alts_severity shortest_gap_eq [OF Severity_nonempty] b len_Severity
    using True by (simp only: if_True a sev_tail_first)
qed

lemma severityScore_exec:
  "severityScore (parseAnalysisMetrics d) =
     (case exec SEVERITY_RE d of None \<Rightarrow> Num 0
      | Some m \<Rightarrow> parseInt10 (toString_arg (group1 m)))"
  by (simp add: parseAnalysisMetrics_def Let_def js_match_def split: option.splits)

lemma severity_refines:
  "severityScore (parseAnalysisMetrics d) = spec_severity same_line d"
proof (cases "first_occurrence ''Severity'' same_line has_digits_slash10 d")
  case None
  then have "exec SEVERITY_RE d = None"
    using exec_first_occurrence [of SEVERITY_RE d, OF sev_here] by simp
  then show ?thesis by (simp add: severityScore_exec spec_severity_def None)
next
  case (Some p)
  obtain i g where p: "p = (i, g)" by (cases p)
  have "occurrence ''Severity'' same_line has_digits_slash10 d i g"
    using Some p first_occurrence_valid by simp
  then have "has_digits_slash10 (drop (i + 8 + g) d)"
    unfolding occurrence_def len_Severity by blast
  then obtain ds where ds: "digits_slash10 (drop (i + 8 + g) d) = Some ds"
    by (auto simp: has_digits_slash10_def)
  have "map_option group1 (exec SEVERITY_RE d) = Some (Some ds)"
    using exec_first_occurrence [of SEVERITY_RE d, OF sev_here] Some p ds by simp
  then obtain m where "exec SEVERITY_RE d = Some m" and "group1 m = Some ds"
    by auto
  then show ?thesis
    by (simp add: severityScore_exec spec_severity_def Some p ds toString_arg_def)
qed

subsection \<open>The primary-impact pattern\<close>

lemma len_ROW_HEAD: "length ROW_HEAD = 24"
  by (simp add: ROW_HEAD_def)

lemma ROW_HEAD_nonempty: "ROW_HEAD \<noteq> []"
  by (simp add: ROW_HEAD_def)

lemma m_alts_impact:
  "m_alts IMPACT_RE t =
     (if prefix ROW_HEAD t
      then m_seq (Group [LazyStar Dot] # lits '' |'') (None, drop 24 t)
      else [])"
  unfolding m_alts_def IMPACT_RE_def ROW_HEAD_def [symmetric]
  by (simp only: list.map concat.simps append_Nil2 append.simps m_seq_lits len_ROW_HEAD)

lemma impact_tail:
  "m_seq (Group [LazyStar Dot] # lits '' |'') (None, u) =
     concat (map (\<lambda>r. if prefix '' |'' r
                       then [(Some (take (length u - length r) u), drop 2 r)] else [])
                 (lazy_star Dot u))"
  by (simp add: comp_def m_seq_lits0 map_concat numeral_2_eq_2 cong: if_cong)

lemma impact_tail_first:
  "map_option fst (first_success (m_seq (Group [LazyStar Dot] # lits '' |'') (None, u))) =
   (case List.find (\<lambda>g. prefix '' |'' (drop g u)) [0..<Suc (length (takeWhile same_line u))] of
      None \<Rightarrow> None
    | Some g \<Rightarrow> Some (Some (take g u)))"
proof -
  let ?F = "\<lambda>r. if prefix '' |'' r
                 then [(Some (take (length u - length r) u), drop 2 r)] else []"
  let ?f = "List.find (\<lambda>g. prefix '' |'' (drop g u)) [0..<Suc (length (takeWhile same_line u))]"
  have ne: "?F r \<noteq> [] \<longleftrightarrow> prefix '' |'' r" for r
    by simp
  have A: "first_success (m_seq (Group [LazyStar Dot] # lits '' |'') (None, u)) =
      (case ?f of None \<Rightarrow> None | Some g \<Rightarrow> first_success (?F (drop g u)))"
    unfolding impact_tail by (simp only: lazy_star_first ne accepts_Dot)
  show ?thesis
  proof (cases ?f)
    case None
    then show ?thesis unfolding A by simp
  next
    case (Some g)
    then have p: "prefix '' |'' (drop g u)" and "g \<in> set [0..<Suc (length (takeWhile same_line u))]"
      by (blast dest: find_SomeD)+
    then have "g \<le> length (takeWhile same_line u)" by auto
    also have "\<dots> \<le> length u" by (rule length_takeWhile_le)
    finally have "length u - length (drop g u) = g" by simp
    then show ?thesis unfolding A Some using p by (simp add: first_success_def)
  qed
qed

lemma impact_here:
  "map_option group1 (m_here IMPACT_RE (drop i d)) =
     (case shortest_gap ROW_HEAD same_line (prefix '' |'') d i of
        None \<Rightarrow> None
      | Some g \<Rightarrow> Some (Some (take g (drop (i + 24) d))))"
proof (cases "prefix ROW_HEAD (drop i d)")
  case False
  then show ?thesis
    unfolding m_here_group1 m_alts_impact shortest_gap_eq [OF ROW_HEAD_nonempty]
    by (simp add: first_success_def)
next
  case True
  have a: "drop 24 (drop i d) = drop (i + 24) d" by (simp add: add.commute)
  show ?thesis
    unfolding m_here_group1 m_alts_impact shortest_gap_eq [OF ROW_HEAD_nonempty] len_ROW_HEAD
    using True by (simp only: if_True a impact_tail_first)
qed

lemma primaryImpact_exec:
  "primaryImpact (parseAnalysisMetrics d) =
     (case exec IMPACT_RE d of None \<Rightarrow> ''Unknown''
      | Some m \<Rightarrow> (case group1 m of None \<Rightarrow> ''Unknown'' | Some c \<Rightarrow> trim c))"
  by (simp add: parseAnalysisMetrics_def Let_def js_match_def split: option.splits)

lemma primaryImpact_refines:
  "primaryImpact (parseAnalysisMetrics d) = spec_primaryImpact d"
proof (cases "first_occurrence ROW_HEAD same_line (prefix '' |'') d")
  case None
  then have "exec IMPACT_RE d = None"
    using exec_first_occurrence [of IMPACT_RE d, OF impact_here] by simp
  then show ?thesis by (simp add: primaryImpact_exec spec_primaryImpact_def None)
next
  case (Some p)
  obtain i g where p: "p = (i, g)" by (cases p)
  have "map_option group1 (exec IMPACT_RE d) = Some (Some (take g (drop (i + 24) d)))"
    using exec_first_occurrence [of IMPACT_RE d, OF impact_here] Some p by simp
  then obtain m where "exec IMPACT_RE d = Some m" and "group1 m = Some (take g (drop (i + 24) d))"
    by auto
  then show ?thesis
    by (simp add: primaryImpact_exec spec_primaryImpact_def Some p)
qed

subsection \<open>The counting patterns\<close>

lemma m_alts_lits:
  "m_alts (map lits ts) s =
     concat (map (\<lambda>t. if prefix t s then [(None, drop (length t) s)] else []) ts)"
  by (simp add: m_alts_def comp_def m_seq_lits0)

lemma m_here_lits:
  "m_here (map lits ts) s =
     (case List.find (\<lambda>t. prefix t s) ts of
        None \<Rightarrow> None
      | Some t \<Rightarrow> Some \<lparr>index = 0, matched = t, group1 = None\<rparr>)"
proof (cases "List.find (\<lambda>t. prefix t s) ts")
  case None
  then show ?thesis
    unfolding m_here_def m_alts_lits first_success_concat_map by simp
next
  case (Some t)
  then have "prefix t s" by (blast dest: find_SomeD)
  then obtain r where "s = t @ r" by (auto simp: prefix_def)
  then show ?thesis
    unfolding m_here_def m_alts_lits first_success_concat_map using Some
    by (simp add: first_success_def)
qed

lemma occurrences_skip:
  assumes "bracketed t" and "x \<noteq> CHR ''[''"
  shows "occurrences t (x # xs) = occurrences t xs"
  using assms by (cases t) (auto simp: bracketed_def)

lemma occurrences_Nil: "bracketed t \<Longrightarrow> occurrences t [] = 0"
  by (cases t) (auto simp: bracketed_def)

lemma count_tokens_Nil: "list_all bracketed ts \<Longrightarrow> count_tokens ts [] = 0"
  by (induction ts) (simp_all add: count_tokens_def occurrences_Nil del: occurrences.simps)

lemma count_tokens_skip_char:
  "list_all bracketed ts \<Longrightarrow> x \<noteq> CHR ''['' \<Longrightarrow> count_tokens ts (x # xs) = count_tokens ts xs"
  by (induction ts) (simp_all add: count_tokens_def occurrences_skip del: occurrences.simps)

lemma count_tokens_skip:
  "list_all bracketed ts \<Longrightarrow> CHR ''['' \<notin> set b \<Longrightarrow> count_tokens ts (b @ r) = count_tokens ts r"
proof (induction b)
  case Nil
  then show ?case by simp
next
  case (Cons a b)
  then have "a \<noteq> CHR ''[''" and "CHR ''['' \<notin> set b" by auto
  then show ?case
    using Cons.IH Cons.prems(1) count_tokens_skip_char [of ts a "b @ r"] by simp
qed

lemma count_tokens_no_match:
  "list_all (\<lambda>t. \<not> prefix t (x # xs)) ts \<Longrightarrow> count_tokens ts (x # xs) = count_tokens ts xs"
  by (induction ts) (simp_all add: count_tokens_def)

lemma count_tokens_Cons:
  "count_tokens ts (x # xs) =
     sum_list (map (\<lambda>t. if prefix t (x # xs) then 1 else 0) ts) + count_tokens ts xs"
  by (induction ts) (simp_all add: count_tokens_def)

lemma sum_list_indicator:
  "distinct ts \<Longrightarrow> t \<in> set ts \<Longrightarrow> sum_list (map (\<lambda>t'. if t' = t then 1 else 0) ts) = (1::nat)"
proof (induction ts)
  case Nil
  then show ?case by simp
next
  case (Cons a ts)
  show ?case
  proof (cases "a = t")
    case True
    then have "t \<notin> set ts" using Cons.prems by simp
    then have "sum_list (map (\<lambda>t'. if t' = t then 1 else 0) ts) = (0::nat)"
      by (induction ts) auto
    then show ?thesis using True by simp
  next
    case False
    then show ?thesis using Cons by simp
  qed
qed

lemma count_tokens_match:
  assumes ok: "tokens_ok ts" and t: "t \<in> set ts" and p: "prefix t d"
  shows "count_tokens ts d = 1 + count_tokens ts (drop (length t) d)"
proof -
  have br: "list_all bracketed ts" and di: "distinct ts"
    using ok by (simp_all add: tokens_ok_def)
  have "bracketed t" using br t by (simp add: list_all_iff)
  then obtain b where tb: "t = CHR ''['' # b" and nb: "CHR ''['' \<notin> set b"
    by (cases t) (auto simp: bracketed_def)
  obtain r where d: "d = t @ r" using p by (auto simp: prefix_def)
  have only: "prefix t' d \<longleftrightarrow> t' = t" if "t' \<in> set ts" for t'
  proof
    assume "prefix t' d"
    then have "prefix t t' \<or> prefix t' t" using p prefix_same_cases by blast
    then show "t' = t" using ok t that by (auto simp: tokens_ok_def list_all_iff)
  next
    assume "t' = t" then show "prefix t' d" using p by simp
  qed
  have "sum_list (map (\<lambda>t'. if prefix t' d then 1 else 0) ts) =
        sum_list (map (\<lambda>t'. if t' = t then 1 else (0::nat)) ts)"
    by (rule arg_cong [where f = sum_list], rule map_cong) (simp_all add: only)
  also have "\<dots> = 1" by (rule sum_list_indicator [OF di t])
  finally have one: "sum_list (map (\<lambda>t'. if prefix t' d then 1 else 0) ts) = (1::nat)" .
  have "count_tokens ts d = 1 + count_tokens ts (b @ r)"
    using count_tokens_Cons [of ts "CHR ''[''" "b @ r"] one by (simp add: d tb)
  also have "count_tokens ts (b @ r) = count_tokens ts r"
    by (rule count_tokens_skip [OF br nb])
  finally show ?thesis by (simp add: d)
qed

lemma exec_lits_None:
  "list_all bracketed ts \<Longrightarrow> exec (map lits ts) d = None \<Longrightarrow> count_tokens ts d = 0"
proof (induction d)
  case Nil
  then show ?case by (simp add: count_tokens_Nil)
next
  case (Cons x xs)
  from Cons.prems(2) have here: "List.find (\<lambda>t. prefix t (x # xs)) ts = None"
    and rest: "exec (map lits ts) xs = None"
    by (auto simp: m_here_lits split: option.splits)
  from here have "list_all (\<lambda>t. \<not> prefix t (x # xs)) ts"
    by (simp add: find_None_iff list_all_iff)
  then show ?case using Cons.IH [OF Cons.prems(1) rest] by (simp add: count_tokens_no_match)
qed

lemma exec_lits_Some:
  assumes ok: "tokens_ok ts"
  shows "exec (map lits ts) d = Some m \<Longrightarrow>
         count_tokens ts d = 1 + count_tokens ts (drop (index m + length (matched m)) d) \<and>
         matched m \<noteq> [] \<and> index m + length (matched m) \<le> length d"
proof (induction d arbitrary: m)
  case Nil
  then obtain t where "List.find (\<lambda>t. prefix t []) ts = Some t"
    by (auto simp: m_here_lits split: option.splits)
  then have "t = []" and "t \<in> set ts" by (auto dest: find_SomeD)
  then have False using ok by (auto simp: tokens_ok_def list_all_iff bracketed_def)
  then show ?case ..
next
  case (Cons x xs)
  show ?case
  proof (cases "List.find (\<lambda>t. prefix t (x # xs)) ts")
    case (Some t)
    then have m: "m = \<lparr>index = 0, matched = t, group1 = None\<rparr>"
      using Cons.prems by (simp add: m_here_lits)
    have t: "t \<in> set ts" and p: "prefix t (x # xs)"
      using Some by (auto dest: find_SomeD)
    have "t \<noteq> []" using ok t by (auto simp: tokens_ok_def list_all_iff bracketed_def)
    moreover have "length t \<le> length (x # xs)" using p by (rule prefix_length_le)
    ultimately show ?thesis
      using count_tokens_match [OF ok t p] by (simp add: m)
  next
    case None
    then obtain m' where m': "exec (map lits ts) xs = Some m'"
      and m: "m = m'\<lparr>index := Suc (index m')\<rparr>"
      using Cons.prems by (auto simp: m_here_lits)
    from None have "list_all (\<lambda>t. \<not> prefix t (x # xs)) ts"
      by (simp add: find_None_iff list_all_iff)
    then have "count_tokens ts (x # xs) = count_tokens ts xs"
      by (rule count_tokens_no_match)
    then show ?thesis using Cons.IH [OF m'] by (simp add: m)
  qed
qed

lemma match_all_count:
  assumes ok: "tokens_ok ts"
  shows "length (match_all (map lits ts) d) = count_tokens ts d"
proof (induction "length d" arbitrary: d rule: less_induct)
  case less
  have br: "list_all bracketed ts" using ok by (simp add: tokens_ok_def)
  show ?case
  proof (cases "exec (map lits ts) d")
    case None
    then show ?thesis
      using exec_lits_None [OF br None] by (simp add: match_all.simps [of _ d])
  next
    case (Some m)
    let ?e = "index m + length (matched m)"
    from exec_lits_Some [OF ok Some]
    have c: "count_tokens ts d = 1 + count_tokens ts (drop ?e d)"
      and ne: "matched m \<noteq> []" and le: "?e \<le> length d" by simp_all
    have e: "max (Suc 0) (length (matched m)) = length (matched m)"
      using ne by (cases "matched m") simp_all
    have "length (drop ?e d) < length d" using ne le by (cases "matched m") auto
    then have "length (match_all (map lits ts) (drop ?e d)) = count_tokens ts (drop ?e d)"
      by (rule less)
    then show ?thesis
      using le by (simp add: match_all.simps [of _ d] Some e c Let_def)
  qed
qed

lemma or_empty_match_g: "or_empty (js_match_g s r) = match_all r s"
  by (cases "match_all r s") (simp_all add: or_empty_def js_match_g_def)

lemma fraud_tokens_ok:
  "tokens_ok [''[SUSPICIOUS]'', ''[INCONSISTENT]'', ''[DETECTED]'', ''[FAIL]'']"
  by (simp add: tokens_ok_def bracketed_def)

lemma FRAUD_RE_lits:
  "FRAUD_RE = map lits [''[SUSPICIOUS]'', ''[INCONSISTENT]'', ''[DETECTED]'', ''[FAIL]'']"
  by (simp add: FRAUD_RE_def)

lemma suspiciousCount_eq:
  "length (or_empty (js_match_g d FRAUD_RE)) =
     occurrences ''[SUSPICIOUS]'' d + occurrences ''[INCONSISTENT]'' d +
     occurrences ''[DETECTED]'' d + occurrences ''[FAIL]'' d"
  unfolding or_empty_match_g FRAUD_RE_lits match_all_count [OF fraud_tokens_ok]
  by (simp add: count_tokens_def)

lemma replaceCount_eq: "replaceCount (parseAnalysisMetrics d) = occurrences ''[REPLACE]'' d"
proof -
  have ok: "tokens_ok [''[REPLACE]'']" by (simp add: tokens_ok_def bracketed_def)
  have re: "REPLACE_RE = map lits [''[REPLACE]'']" by (simp add: REPLACE_RE_def)
  have "replaceCount (parseAnalysisMetrics d) = length (or_empty (js_match_g d REPLACE_RE))"
    by (simp add: parseAnalysisMetrics_def Let_def split: option.splits)
  then show ?thesis
    unfolding or_empty_match_g re match_all_count [OF ok] by (simp add: count_tokens_def)
qed

lemma repairCount_eq: "repairCount (parseAnalysisMetrics d) = occurrences ''[REPAIR]'' d"
proof -
  have ok: "tokens_ok [''[REPAIR]'']" by (simp add: tokens_ok_def bracketed_def)
  have re: "REPAIR_RE = map lits [''[REPAIR]'']" by (simp add: REPAIR_RE_def)
  have "repairCount (parseAnalysisMetrics d) = length (or_empty (js_match_g d REPAIR_RE))"
    by (simp add: parseAnalysisMetrics_def Let_def split: option.splits)
  then show ?thesis
    unfolding or_empty_match_g re match_all_count [OF ok] by (simp add: count_tokens_def)
qed

lemma fraudRisk_count:
  "fraudRisk (parseAnalysisMetrics d) =
     (let n = length (or_empty (js_match_g d FRAUD_RE))
      in if n \<ge> 2 then HIGH else if n = 1 then MEDIUM else LOW)"
  by (simp add: parseAnalysisMetrics_def Let_def split: option.splits)

lemma fraudRisk_refines: "fraudRisk (parseAnalysisMetrics d) = spec_fraudRisk d"
  unfolding fraudRisk_count suspiciousCount_eq spec_fraudRisk_def
  by (auto simp: Let_def)

subsection \<open>A row that is the first one\<close>

lemma find_upt_least:
  assumes "Q g" and "g \<le> k" and "\<And>g'. g' < g \<Longrightarrow> \<not> Q g'"
  shows "List.find Q [0..<Suc k] = Some g"
proof -
  have "g < length [0..<Suc k]" using assms(2) by simp
  moreover have "[0..<Suc k] ! g = g" using assms(2) by (simp del: upt_Suc)
  moreover have "\<forall>j<g. \<not> Q ([0..<Suc k] ! j)"
    using assms(2,3) by (simp del: upt_Suc)
  ultimately show ?thesis
    unfolding find_Some_iff using assms(1) by metis
qed

lemma rear_bumper_row:
  assumes d: "d = p @ ''| Primary Impact Zone | Rear Bumper |'' @ r"
    and nb: "no_row_before d (length p)"
  shows "spec_primaryImpact d = ''Rear Bumper''"
proof -
  let ?Q = "prefix '' |''"
  let ?u = "''Rear Bumper |'' @ r"
  have here: "drop (length p) d = ROW_HEAD @ ?u"
    by (simp add: d ROW_HEAD_def)
  have u: "drop (length p + 24) d = ?u"
    by (simp add: d)
  have pre: "prefix ROW_HEAD (drop (length p) d)"
    unfolding here by simp
  have k: "11 \<le> length (takeWhile same_line ?u)"
    by (simp add: same_line_def isLineTerminator_def)
  have q: "?Q (drop 11 ?u)" by simp
  have nq: "\<not> ?Q (drop g ?u)" if "g < 11" for g
  proof -
    have "\<forall>g<11. \<not> ?Q (drop g ?u)"
      by (simp add: eval_nat_numeral All_less_Suc)
    then show ?thesis using that by blast
  qed
  have "List.find (\<lambda>g. ?Q (drop g ?u)) [0..<Suc (length (takeWhile same_line ?u))] = Some 11"
    using q k nq by (rule find_upt_least)
  then have gap: "shortest_gap ROW_HEAD same_line ?Q d (length p) = Some 11"
    unfolding shortest_gap_eq [OF ROW_HEAD_nonempty] len_ROW_HEAD u using pre by (simp only: if_True)
  have none: "shortest_gap ROW_HEAD same_line ?Q d i = None" if "i < length p" for i
    using nb that by (simp add: no_row_before_def list_all_iff)
  have "length p \<le> length d" by (simp add: d)
  with gap none
  have "List.find (\<lambda>i. shortest_gap ROW_HEAD same_line ?Q d i \<noteq> None) [0..<Suc (length d)] =
        Some (length p)"
    by (intro find_upt_least) simp_all
  then have "first_occurrence ROW_HEAD same_line ?Q d = Some (length p, 11)"
    by (simp add: first_occurrence_def gap)
  then show ?thesis
    by (simp add: spec_primaryImpact_def u trim_def isWhiteSpace_def)
qed

subsection \<open>The rows of the end-to-end scenario\<close>

lemma shortest_gap_without_prefix:
  assumes "pre \<noteq> []" and "\<not> prefix pre (drop i d)"
  shows "shortest_gap pre gap_ok Q d i = None"
  unfolding shortest_gap_eq [OF assms(1)] using assms(2) by simp

lemma no_severity_before_by_word:
  "list_all (\<lambda>i. \<not> prefix ''Severity'' (drop i d)) [0..<n] \<Longrightarrow> no_severity_before d n"
  unfolding no_severity_before_def list_all_iff
  using shortest_gap_without_prefix [OF Severity_nonempty] by blast

lemma reinforcement_row:
  assumes d: "d = p @ ''| Primary Impact Zone | Rear Bumper Reinforcement |'' @ r"
    and nb: "no_row_before d (length p)"
  shows "spec_primaryImpact d = ''Rear Bumper Reinforcement''"
proof -
  let ?Q = "prefix '' |''"
  let ?u = "''Rear Bumper Reinforcement |'' @ r"
  have here: "drop (length p) d = ROW_HEAD @ ?u"
    by (simp add: d ROW_HEAD_def)
  have u: "drop (length p + 24) d = ?u"
    by (simp add: d)
  have pre: "prefix ROW_HEAD (drop (length p) d)"
    unfolding here by simp
  have k: "25 \<le> length (takeWhile same_line ?u)"
    by (simp add: same_line_def isLineTerminator_def)
  have q: "?Q (drop 25 ?u)" by simp
  have nq: "\<not> ?Q (drop g ?u)" if "g < 25" for g
  proof -
    have "\<forall>g<25. \<not> ?Q (drop g ?u)"
      by (simp add: eval_nat_numeral All_less_Suc)
    then show ?thesis using that by blast
  qed
  have "List.find (\<lambda>g. ?Q (drop g ?u)) [0..<Suc (length (takeWhile same_line ?u))] = Some 25"
    using q k nq by (rule find_upt_least)
  then have gap: "shortest_gap ROW_HEAD same_line ?Q d (length p) = Some 25"
    unfolding shortest_gap_eq [OF ROW_HEAD_nonempty] len_ROW_HEAD u using pre by (simp only: if_True)
  have none: "shortest_gap ROW_HEAD same_line ?Q d i = None" if "i < length p" for i
    using nb that by (simp add: no_row_before_def list_all_iff)
  have "length p \<le> length d" by (simp add: d)
  with gap none
  have "List.find (\<lambda>i. shortest_gap ROW_HEAD same_line ?Q d i \<noteq> None) [0..<Suc (length d)] =
        Some (length p)"
    by (intro find_upt_least) simp_all
  then have "first_occurrence ROW_HEAD same_line ?Q d = Some (length p, 25)"
    by (simp add: first_occurrence_def gap)
  then show ?thesis
    by (simp add: spec_primaryImpact_def u trim_def isWhiteSpace_def)
qed

lemma parseInt10_8: "parseInt10 ''8'' = Num 8"
  by code_simp

lemma severity_8_of_10:
  assumes d: "d = p @ ''Impact Severity (1-10) | 8/10'' @ r"
    and nb: "no_severity_before d (length p + 7)"
  shows "spec_severity same_line d = Num 8"
proof -
  let ?Q = has_digits_slash10
  let ?i = "length p + 7"
  let ?u = "'' (1-10) | 8/10'' @ r"
  have here: "drop ?i d = ''Severity'' @ ?u"
    by (simp add: d)
  have u: "drop (?i + 8) d = ?u"
    by (simp add: d)
  have pre: "prefix ''Severity'' (drop ?i d)"
    unfolding here by simp
  have k: "10 \<le> length (takeWhile same_line ?u)"
    by (simp add: same_line_def isLineTerminator_def)
  have run: "digits_slash10 (drop 10 ?u) = Some ''8''"
    by (simp add: digits_slash10_def isDigit_def)
  then have q: "?Q (drop 10 ?u)" by (simp add: has_digits_slash10_def)
  have nq: "\<not> ?Q (drop g ?u)" if "g < 10" for g
  proof -
    have "\<forall>g<10. \<not> ?Q (drop g ?u)"
      by (simp add: eval_nat_numeral All_less_Suc has_digits_slash10_def digits_slash10_def
          isDigit_def)
    then show ?thesis using that by blast
  qed
  have "List.find (\<lambda>g. ?Q (drop g ?u)) [0..<Suc (length (takeWhile same_line ?u))] = Some 10"
    using q k nq by (rule find_upt_least)
  then have gap: "shortest_gap ''Severity'' same_line ?Q d ?i = Some 10"
    unfolding shortest_gap_eq [OF Severity_nonempty] len_Severity u using pre by (simp only: if_True)
  have none: "shortest_gap ''Severity'' same_line ?Q d i = None" if "i < ?i" for i
    using nb that by (simp add: no_severity_before_def list_all_iff)
  have "?i \<le> length d" by (simp add: d)
  with gap none
  have "List.find (\<lambda>i. shortest_gap ''Severity'' same_line ?Q d i \<noteq> None) [0..<Suc (length d)] =
        Some ?i"
    by (intro find_upt_least) simp_all
  then have f: "first_occurrence ''Severity'' same_line ?Q d = Some (?i, 10)"
    by (simp add: first_occurrence_def gap)
  have "drop (?i + 8 + 10) d = drop 10 ?u"
    using u by (metis add.commute drop_drop)
  then show ?thesis
    unfolding spec_severity_def f by (simp only: prod.case option.case run parseInt10_8)
qed

section \<open>What the specification-level definitions say\<close>

text \<open>
  An occurrence is a decomposition of the document; the digit run before \<open>/10\<close> is the
  whole run; the first occurrence is the least one, by start index and then by gap; and
  \<open>occurrences\<close> counts the positions at which a token starts.
\<close>

lemma occurrence_iff:
  "occurrence pre gap_ok Q d i g \<longleftrightarrow>
     (\<exists>p gap rest. d = p @ pre @ gap @ rest \<and> length p = i \<and> length gap = g \<and>
        list_all gap_ok gap \<and> Q rest)"
proof
  assume o: "occurrence pre gap_ok Q d i g"
  let ?p = "take i d" and ?gap = "take g (drop (i + length pre) d)"
  let ?rest = "drop (i + length pre + g) d"
  from o have pre: "prefix pre (drop i d)" and len: "i + length pre + g \<le> length d"
    and gap: "list_all gap_ok ?gap" and q: "Q ?rest"
    by (simp_all add: occurrence_def)
  from pre obtain t where t: "drop i d = pre @ t" by (auto simp: prefix_def)
  then have "drop (i + length pre) d = t"
    by (metis add.commute append_eq_conv_conj drop_drop)
  then have "t = ?gap @ ?rest"
    by (metis add.commute append_take_drop_id drop_drop)
  then have "d = ?p @ pre @ ?gap @ ?rest"
    using t by (metis append_take_drop_id)
  moreover have "length ?p = i" "length ?gap = g" using len by simp_all
  ultimately show "\<exists>p gap rest. d = p @ pre @ gap @ rest \<and> length p = i \<and> length gap = g \<and>
        list_all gap_ok gap \<and> Q rest"
    using gap q by blast
next
  assume "\<exists>p gap rest. d = p @ pre @ gap @ rest \<and> length p = i \<and> length gap = g \<and>
        list_all gap_ok gap \<and> Q rest"
  then obtain p gap rest where "d = p @ pre @ gap @ rest" "length p = i" "length gap = g"
    "list_all gap_ok gap" "Q rest" by blast
  then show "occurrence pre gap_ok Q d i g"
    by (simp add: occurrence_def)
qed

lemma digits_slash10_iff:
  "digits_slash10 r = Some ds \<longleftrightarrow>
     ds \<noteq> [] \<and> list_all isDigit ds \<and> (\<exists>rest. r = ds @ ''/10'' @ rest)"
proof
  assume "digits_slash10 r = Some ds"
  then have ds: "ds = takeWhile isDigit r" and ne: "ds \<noteq> []"
    and p: "prefix ''/10'' (dropWhile isDigit r)"
    by (auto simp: digits_slash10_def split: if_splits)
  from p obtain rest where "dropWhile isDigit r = ''/10'' @ rest" by (auto simp: prefix_def)
  then have "r = ds @ ''/10'' @ rest"
    using ds by (metis takeWhile_dropWhile_id)
  moreover have "list_all isDigit ds"
    unfolding ds list_all_iff by (auto dest: set_takeWhileD)
  ultimately show "ds \<noteq> [] \<and> list_all isDigit ds \<and> (\<exists>rest. r = ds @ ''/10'' @ rest)"
    using ne by blast
next
  assume "ds \<noteq> [] \<and> list_all isDigit ds \<and> (\<exists>rest. r = ds @ ''/10'' @ rest)"
  then obtain rest where ne: "ds \<noteq> []" and dg: "list_all isDigit ds"
    and r: "r = ds @ ''/10'' @ rest" by blast
  have nd: "\<not> isDigit (CHR ''/'')" by (simp add: isDigit_def)
  have "takeWhile isDigit r = ds"
    unfolding r using dg nd by (simp add: list_all_iff)
  moreover have "dropWhile isDigit r = ''/10'' @ rest"
    unfolding r using dg nd by (simp add: list_all_iff)
  ultimately show "digits_slash10 r = Some ds"
    using ne by (simp add: digits_slash10_def)
qed

lemma occurrence_bounds:
  "pre \<noteq> [] \<Longrightarrow> occurrence pre gap_ok Q d i g \<Longrightarrow> i < Suc (length d) \<and> g < Suc (length d)"
  by (auto simp: occurrence_def)

lemma find_upt_None_iff: "List.find P [0..<Suc n] = None \<longleftrightarrow> (\<forall>i\<le>n. \<not> P i)"
  by (auto simp: find_None_iff less_Suc_eq_le simp del: upt_Suc)

lemma first_occurrence_None_iff:
  "first_occurrence pre gap_ok Q d = None \<longleftrightarrow> (\<forall>i g. \<not> occurrence pre gap_ok Q d i g)"
proof -
  have b: "occurrence pre gap_ok Q d i g \<Longrightarrow> i \<le> length d \<and> g \<le> length d" for i g
    by (auto simp: occurrence_def)
  have gap: "shortest_gap pre gap_ok Q d i = None \<longleftrightarrow> (\<forall>g. \<not> occurrence pre gap_ok Q d i g)" for i
    unfolding shortest_gap_def find_upt_None_iff using b by blast
  show ?thesis
  proof (cases "List.find (\<lambda>i. shortest_gap pre gap_ok Q d i \<noteq> None) [0..<Suc (length d)]")
    case None
    then have "\<forall>i \<le> length d. shortest_gap pre gap_ok Q d i = None"
      unfolding find_upt_None_iff by simp
    then have "\<forall>i g. \<not> occurrence pre gap_ok Q d i g"
      using gap b by blast
    then show ?thesis unfolding first_occurrence_def None by simp
  next
    case (Some i)
    then have "shortest_gap pre gap_ok Q d i \<noteq> None" by (blast dest: find_SomeD)
    then show ?thesis unfolding first_occurrence_def Some using gap by auto
  qed
qed

lemma find_Some_least: "List.find P [0..<n] = Some i \<Longrightarrow> j < i \<Longrightarrow> \<not> P j"
  by (auto simp: find_Some_iff)

lemma first_occurrence_least:
  assumes f: "first_occurrence pre gap_ok Q d = Some (i, g)"
    and o: "occurrence pre gap_ok Q d i' g'"
  shows "i < i' \<or> (i = i' \<and> g \<le> g')"
proof -
  have b: "i' \<le> length d" "g' \<le> length d"
    using o by (auto simp: occurrence_def)
  from f have fi: "List.find (\<lambda>i. shortest_gap pre gap_ok Q d i \<noteq> None) [0..<Suc (length d)] = Some i"
    and fg: "List.find (occurrence pre gap_ok Q d i) [0..<Suc (length d)] = Some g"
    by (auto simp: first_occurrence_def shortest_gap_def split: option.splits)
  have "shortest_gap pre gap_ok Q d i' \<noteq> None"
    unfolding shortest_gap_def find_upt_None_iff using o b by blast
  then have "\<not> i' < i" using find_Some_least [OF fi] by blast
  moreover have "\<not> g' < g" if "i = i'"
    using find_Some_least [OF fg] o that by blast
  ultimately show ?thesis by auto
qed

lemma occurrences_card:
  "t \<noteq> [] \<Longrightarrow> occurrences t d = card {i. i < length d \<and> prefix t (drop i d)}"
proof (induction d)
  case Nil
  then show ?case by simp
next
  case (Cons x xs)
  let ?S = "{i. i < length xs \<and> prefix t (drop i xs)}"
  have fin: "finite ?S" by simp
  have set: "{i. i < length (x # xs) \<and> prefix t (drop i (x # xs))} =
        (if prefix t (x # xs) then {0} else {}) \<union> Suc ` ?S"
  proof (rule set_eqI)
    fix i show "i \<in> {i. i < length (x # xs) \<and> prefix t (drop i (x # xs))} \<longleftrightarrow>
        i \<in> (if prefix t (x # xs) then {0} else {}) \<union> Suc ` ?S"
      by (cases i) auto
  qed
  have card: "card ((if prefix t (x # xs) then {0} else {}) \<union> Suc ` ?S) =
        (if prefix t (x # xs) then 1 else 0) + card ?S"
    using fin by (auto simp: card_insert_if card_image)
  have "occurrences t (x # xs) = (if prefix t (x # xs) then 1 else 0) + card ?S"
    using Cons by simp
  then show ?case unfolding set card .
qed

subsection \<open>Parsing the digit run\<close>

text \<open>The captured digit run is parsed to its decimal value, which is not negative; the
  score is 0 or such a value, and never \<open>NaN\<close>.\<close>

lemma digit_val_range: "isDigit c \<Longrightarrow> 0 \<le> digit_val c \<and> digit_val c \<le> 9"
  by (auto simp: isDigit_def digit_val_def)

lemma digit_not_space: "isDigit c \<Longrightarrow> \<not> isWhiteSpace c \<and> c \<noteq> CHR ''+'' \<and> c \<noteq> CHR ''-''"
  by (auto simp: isDigit_def isWhiteSpace_def)

lemma foldl_decimal_nonneg:
  "list_all isDigit ds \<Longrightarrow> 0 \<le> a \<Longrightarrow> 0 \<le> foldl (\<lambda>a c. 10 * a + digit_val c) a ds"
proof (induction ds arbitrary: a)
  case Nil
  then show ?case by simp
next
  case (Cons c cs)
  then have "0 \<le> 10 * a + digit_val c" using digit_val_range [of c] by simp
  then show ?case using Cons by simp
qed

lemma decimal_nonneg: "list_all isDigit ds \<Longrightarrow> 0 \<le> decimal ds"
  unfolding decimal_def by (rule foldl_decimal_nonneg) simp_all

lemma parseInt10_digits:
  assumes "ds \<noteq> []" and "list_all isDigit ds"
  shows "parseInt10 ds = (if decimal ds \<le> 2 ^ 53 then Num (decimal ds) else Approx (decimal ds))"
proof -
  obtain c cs where ds: "ds = c # cs" using assms(1) by (cases ds) auto
  then have c: "isDigit c" using assms(2) by simp
  have tw: "takeWhile isDigit ds = ds"
    using assms(2) by (simp add: list_all_iff)
  have s1: "dropWhile isWhiteSpace ds = ds"
    using digit_not_space [OF c] by (simp add: ds)
  have neg: "(case ds of [] \<Rightarrow> False | c # _ \<Rightarrow> c = CHR ''-'') = False"
    using digit_not_space [OF c] by (simp add: ds)
  have s2: "(case ds of [] \<Rightarrow> [] | c # cs \<Rightarrow> if c = CHR ''+'' \<or> c = CHR ''-'' then cs else ds) = ds"
    using digit_not_space [OF c] by (simp add: ds)
  have ab: "\<bar>decimal ds\<bar> = decimal ds" using decimal_nonneg [OF assms(2)] by simp
  show ?thesis
    unfolding parseInt10_def Let_def s1 neg s2 tw using assms(1) ab by simp
qed

lemma digits_slash10_digits:
  "digits_slash10 r = Some ds \<Longrightarrow> ds \<noteq> [] \<and> list_all isDigit ds"
  using digits_slash10_iff by blast

lemma severity_value:
  "severityScore (parseAnalysisMetrics d) = Num 0 \<or>
   (\<exists>ds. ds \<noteq> [] \<and> list_all isDigit ds \<and>
      severityScore (parseAnalysisMetrics d) =
        (if decimal ds \<le> 2 ^ 53 then Num (decimal ds) else Approx (decimal ds)))"
proof (cases "first_occurrence ''Severity'' same_line has_digits_slash10 d")
  case None
  then show ?thesis by (simp add: severity_refines spec_severity_def)
next
  case (Some p)
  obtain i g where p: "p = (i, g)" by (cases p)
  show ?thesis
  proof (cases "digits_slash10 (drop (i + 8 + g) d)")
    case None
    then show ?thesis by (simp add: severity_refines spec_severity_def Some p)
  next
    case (Some ds)
    then have "ds \<noteq> [] \<and> list_all isDigit ds" by (rule digits_slash10_digits)
    moreover from this have "parseInt10 ds =
        (if decimal ds \<le> 2 ^ 53 then Num (decimal ds) else Approx (decimal ds))"
      using parseInt10_digits by blast
    moreover have "severityScore (parseAnalysisMetrics d) = parseInt10 ds"
      by (simp add: severity_refines spec_severity_def \<open>first_occurrence _ _ _ d = Some p\<close> p Some)
    ultimately show ?thesis by metis
  qed
qed

section \<open>Facts about the gateway and the orchestration\<close>

lemma js_includes_iff: "js_includes s t \<longleftrightarrow> (\<exists>p r. s = p @ t @ r)"
proof (induction s)
  case Nil
  then show ?case by simp
next
  case (Cons x xs)
  show ?case
  proof
    assume "js_includes (x # xs) t"
    then consider "prefix t (x # xs)" | "js_includes xs t" by auto
    then show "\<exists>p r. x # xs = p @ t @ r"
    proof cases
      case 1
      then obtain r where "x # xs = t @ r" by (auto simp: prefix_def)
      then have "x # xs = [] @ t @ r" by simp
      then show ?thesis by blast
    next
      case 2
      then obtain p r where "xs = p @ t @ r" using Cons.IH by blast
      then have "x # xs = (x # p) @ t @ r" by simp
      then show ?thesis by blast
    qed
  next
    assume "\<exists>p r. x # xs = p @ t @ r"
    then obtain p r where e: "x # xs = p @ t @ r" by blast
    show "js_includes (x # xs) t"
    proof (cases p)
      case Nil
      then have "prefix t (x # xs)" using e by (simp add: prefix_def)
      then show ?thesis by simp
    next
      case (Cons y p')
      then have "xs = p' @ t @ r" using e by simp
      then have "js_includes xs t" using Cons.IH by blast
      then show ?thesis by simp
    qed
  qed
qed

lemma js_includes_toLowerCase:
  "js_includes s t \<Longrightarrow> js_includes (toLowerCase s) (toLowerCase t)"
  unfolding js_includes_iff toLowerCase_def by (metis map_append)

lemma toLowerCase_right: "toLowerCase ''right'' = ''right''"
  by (simp add: toLowerCase_def lower_char_def)

lemma locationInstruction_cases:
  "locationInstruction desc =
     (if mentions desc [''right'', ''passenger'', ''rh''] then RIGHT_INSTRUCTION
      else if mentions desc [''left'', ''driver'', ''lh''] then LEFT_INSTRUCTION
      else if mentions desc [''rear'', ''back''] then REAR_INSTRUCTION
      else if mentions desc [''front''] then FRONT_INSTRUCTION
      else [])"
  by (simp add: mentions_def locationInstruction_def Let_def del: js_includes.simps)

lemma right_mentioned:
  assumes "js_includes desc ''right''"
  shows "mentions desc [''right'', ''passenger'', ''rh'']"
proof -
  have "js_includes (toLowerCase desc) ''right''"
    using js_includes_toLowerCase [OF assms] by (simp only: toLowerCase_right)
  then show ?thesis by (simp add: mentions_def del: js_includes.simps)
qed

lemma first_inline_image_None:
  "list_all (\<lambda>p. inlineData p = None) ps \<Longrightarrow> first_inline_image ps = None"
  by (induction ps) simp_all

lemma first_inline_image_Some:
  "first_inline_image ps = Some img \<Longrightarrow>
     \<exists>pre p blob post. ps = pre @ p # post \<and> list_all (\<lambda>q. inlineData q = None) pre \<and>
        inlineData p = Some blob \<and> img = ''data:image/png;base64,'' @ toString_arg (data blob)"
proof (induction ps)
  case Nil
  then show ?case by simp
next
  case (Cons q qs)
  show ?case
  proof (cases "inlineData q")
    case (Some blob)
    then have "img = ''data:image/png;base64,'' @ toString_arg (data blob)"
      using Cons.prems by simp
    moreover have "q # qs = [] @ q # qs" by simp
    moreover have "list_all (\<lambda>q. inlineData q = None) []" by simp
    ultimately show ?thesis using Some by blast
  next
    case None
    then have "first_inline_image qs = Some img" using Cons.prems by simp
    then obtain pre p blob post where
      "qs = pre @ p # post" "list_all (\<lambda>q. inlineData q = None) pre"
      "inlineData p = Some blob" "img = ''data:image/png;base64,'' @ toString_arg (data blob)"
      using Cons.IH by blast
    then have "q # qs = (q # pre) @ p # post \<and> list_all (\<lambda>q. inlineData q = None) (q # pre) \<and>
      inlineData p = Some blob \<and> img = ''data:image/png;base64,'' @ toString_arg (data blob)"
      using None by simp
    then show ?thesis by blast
  qed
qed

lemma first_inline_image_retag:
  "first_inline_image (map (retag_part f) ps) = first_inline_image ps"
  by (induction ps) (auto simp: retag_part_def split: option.splits)

lemma response_parts_retag:
  "response_parts (retag_response f response) = map (retag_part f) (response_parts response)"
  by (auto simp: response_parts_def retag_response_def split: option.splits list.splits)

lemma diagram_mime_independent:
  "generateImpactDiagram k (with_mime f svc) inp = generateImpactDiagram k svc inp"
  by (auto simp: generateImpactDiagram_def with_mime_def response_parts_retag
        first_inline_image_retag split: sum.splits)

lemma diagram_absent:
  "diagram_call_fails svc inp \<Longrightarrow> generateImpactDiagram k svc inp = None"
  by (auto simp: diagram_call_fails_def generateImpactDiagram_def first_inline_image_None
        split: sum.splits)

lemma analyze_fails_iff:
  "isl (analyzeAccident k svc inp) \<longleftrightarrow>
     falsy_string k \<or> isl (encode_images (images inp)) \<or>
     (\<exists>ps. encode_images (images inp) = Inr ps \<and> isl (svc (analysisRequest inp ps)))"
  by (auto simp: analyzeAccident_def split: sum.splits)

lemma handleAnalysis_error:
  "isl (analyzeAccident k svc inp) \<Longrightarrow>
     appState (handleAnalysis k svc now inp app) = ERROR \<and>
     result (handleAnalysis k svc now inp app) = result app"
  by (auto simp: handleAnalysis_def Let_def split: sum.splits)

lemma handleAnalysis_complete:
  "analyzeAccident k svc inp = Inr md \<Longrightarrow>
     appState (handleAnalysis k svc now inp app) = COMPLETE \<and>
     result (handleAnalysis k svc now inp app) =
       Some \<lparr>markdown = md, diagram = generateImpactDiagram k svc inp, timestamp = now,
             metrics = parseAnalysisMetrics md\<rparr>"
  by (simp add: handleAnalysis_def Let_def)

lemma reachable_result:
  "reachable app \<Longrightarrow> appState app \<noteq> COMPLETE \<Longrightarrow> result app = None"
proof (induction rule: reachable.induct)
  case init
  then show ?case by (simp add: initialApp_def)
next
  case (submit app API_KEY generateContent now input)
  then have none: "result app = None" by simp
  show ?case
  proof (cases "analyzeAccident API_KEY generateContent input")
    case (Inl e)
    then have "isl (analyzeAccident API_KEY generateContent input)" by simp
    then show ?thesis using handleAnalysis_error none by metis
  next
    case (Inr md)
    then show ?thesis using handleAnalysis_complete submit.prems by metis
  qed
next
  case (reset app)
  then show ?case by (simp add: resetApp_def)
qed

section \<open>The claims\<close>

text \<open>
  C1, as the code has it. The extractor returns severity 8, fraud risk MEDIUM, one
  replacement, two repairs and the primary impact \<open>Rear Bumper Reinforcement\<close> for every
  document that contains the line \<open>| Primary Impact Zone | Rear Bumper Reinforcement |\<close> with
  no row of that pattern starting before it, contains the text
  \<open>Impact Severity (1-10) | 8/10\<close> with no severity occurrence starting before its word
  \<open>Severity\<close>, and holds exactly one \<open>[REPLACE]\<close>, two \<open>[REPAIR]\<close>, one \<open>[INCONSISTENT]\<close> and none
  of \<open>[SUSPICIOUS]\<close>, \<open>[DETECTED]\<close>, \<open>[FAIL]\<close>.
\<close>

theorem scenario_document_metrics:
  assumes "d = p @ ''| Primary Impact Zone | Rear Bumper Reinforcement |'' @ r"
    and "no_row_before d (length p)"
    and "d = p' @ ''Impact Severity (1-10) | 8/10'' @ r'"
    and "no_severity_before d (length p' + 7)"
    and "occurrences ''[REPLACE]'' d = 1" and "occurrences ''[REPAIR]'' d = 2"
    and "occurrences ''[INCONSISTENT]'' d = 1" and "occurrences ''[SUSPICIOUS]'' d = 0"
    and "occurrences ''[DETECTED]'' d = 0" and "occurrences ''[FAIL]'' d = 0"
  shows "parseAnalysisMetrics d =
     \<lparr>severityScore = Num 8, fraudRisk = MEDIUM, replaceCount = 1, repairCount = 2,
      primaryImpact = ''Rear Bumper Reinforcement''\<rparr>"
proof -
  have f1: "severityScore (parseAnalysisMetrics d) = Num 8"
    unfolding severity_refines using assms(3,4) by (rule severity_8_of_10)
  have f2: "fraudRisk (parseAnalysisMetrics d) = MEDIUM"
    unfolding fraudRisk_refines spec_fraudRisk_def assms(7-10) by simp
  have f3: "replaceCount (parseAnalysisMetrics d) = 1"
    unfolding replaceCount_eq by (rule assms(5))
  have f4: "repairCount (parseAnalysisMetrics d) = 2"
    unfolding repairCount_eq by (rule assms(6))
  have f5: "primaryImpact (parseAnalysisMetrics d) = ''Rear Bumper Reinforcement''"
    unfolding primaryImpact_refines using assms(1,2) by (rule reinforcement_row)
  show ?thesis
    by (rule AnalysisMetrics.equality) (simp_all add: f1 f2 f3 f4 f5)
qed

theorem scenario_document_metrics_witness:
  "scenario_report = [] @ ''| Primary Impact Zone | Rear Bumper Reinforcement |'' @
     drop 51 scenario_report \<and>
   no_row_before scenario_report (length ([] :: string)) \<and>
   scenario_report = ''| Primary Impact Zone | Rear Bumper Reinforcement |\<newline>| '' @
     ''Impact Severity (1-10) | 8/10'' @ drop 83 scenario_report \<and>
   no_severity_before scenario_report
     (length ''| Primary Impact Zone | Rear Bumper Reinforcement |\<newline>| '' + 7) \<and>
   occurrences ''[REPLACE]'' scenario_report = 1 \<and>
   occurrences ''[REPAIR]'' scenario_report = 2 \<and>
   occurrences ''[INCONSISTENT]'' scenario_report = 1 \<and>
   occurrences ''[SUSPICIOUS]'' scenario_report = 0 \<and>
   occurrences ''[DETECTED]'' scenario_report = 0 \<and>
   occurrences ''[FAIL]'' scenario_report = 0 \<and>
   parseAnalysisMetrics scenario_report =
     \<lparr>severityScore = Num 8, fraudRisk = MEDIUM, replaceCount = 1, repairCount = 2,
      primaryImpact = ''Rear Bumper Reinforcement''\<rparr>"
proof -
  let ?p' = "''| Primary Impact Zone | Rear Bumper Reinforcement |\<newline>| ''"
  have a: "scenario_report = [] @ ''| Primary Impact Zone | Rear Bumper Reinforcement |'' @
      drop 51 scenario_report"
    by (simp add: scenario_report_def)
  have b: "no_row_before scenario_report (length ([] :: string))"
    by (simp add: no_row_before_def)
  have c: "scenario_report = ?p' @ ''Impact Severity (1-10) | 8/10'' @ drop 83 scenario_report"
    by (simp add: scenario_report_def)
  have "list_all (\<lambda>i. \<not> prefix ''Severity'' (drop i scenario_report)) [0..<61]"
    unfolding scenario_report_def by code_simp
  then have "no_severity_before scenario_report 61"
    by (rule no_severity_before_by_word)
  then have d: "no_severity_before scenario_report (length ?p' + 7)" by simp
  have e: "occurrences ''[REPLACE]'' scenario_report = 1"
    unfolding scenario_report_def by code_simp
  have f: "occurrences ''[REPAIR]'' scenario_report = 2"
    unfolding scenario_report_def by code_simp
  have g: "occurrences ''[INCONSISTENT]'' scenario_report = 1"
    unfolding scenario_report_def by code_simp
  have h: "occurrences ''[SUSPICIOUS]'' scenario_report = 0"
    unfolding scenario_report_def by code_simp
  have i: "occurrences ''[DETECTED]'' scenario_report = 0"
    unfolding scenario_report_def by code_simp
  have j: "occurrences ''[FAIL]'' scenario_report = 0"
    unfolding scenario_report_def by code_simp
  have m: "parseAnalysisMetrics scenario_report =
     \<lparr>severityScore = Num 8, fraudRisk = MEDIUM, replaceCount = 1, repairCount = 2,
      primaryImpact = ''Rear Bumper Reinforcement''\<rparr>"
    by (rule scenario_document_metrics [OF a b c d e f g h i j])
  show ?thesis
    by (intro conjI) (rule a b c d e f g h i j m)+
qed

text \<open>
  C1, as the claim words it, names the line, the severity text and the three token counts
  only. A document that has all of them and a \<open>[FAIL]\<close> finding as well is rated HIGH.
\<close>

theorem scenario_extra_finding_counterexample:
  "js_includes extra_fail_report ''| Primary Impact Zone | Rear Bumper Reinforcement |'' \<and>
   js_includes extra_fail_report ''Impact Severity (1-10) | 8/10'' \<and>
   occurrences ''[REPLACE]'' extra_fail_report = 1 \<and>
   occurrences ''[REPAIR]'' extra_fail_report = 2 \<and>
   occurrences ''[INCONSISTENT]'' extra_fail_report = 1 \<and>
   fraudRisk (parseAnalysisMetrics extra_fail_report) = HIGH"
  unfolding extra_fail_report_def by code_simp

text \<open>
  C2, as the code has it. The severity score is the parsed digit run of the first occurrence
  of \<open>Severity\<close> followed, after the shortest gap of intervening characters none of which is a
  line terminator, by a run of digits and \<open>/10\<close>; it is 0 when the document has no such
  occurrence.
\<close>

theorem severity_first_occurrence_on_one_line:
  "severityScore (parseAnalysisMetrics d) = spec_severity same_line d"
  by (rule severity_refines)

text \<open>
  C2, as the claim words it, lets the gap run across any intervening characters. A document
  with the word on one line and the score on the next tells the two readings apart: the
  claim's reading finds the score 8, the extractor finds nothing and answers 0.
\<close>

theorem severity_across_lines_counterexample:
  "spec_severity any_char two_line_report = Num 8 \<and>
   severityScore (parseAnalysisMetrics two_line_report) = Num 0"
  unfolding two_line_report_def by code_simp

text \<open>
  C3. The fraud risk comes from the number of positions of the document at which one of
  \<open>[SUSPICIOUS]\<close>, \<open>[INCONSISTENT]\<close>, \<open>[DETECTED]\<close>, \<open>[FAIL]\<close> starts, all four summed: none gives
  LOW, exactly one MEDIUM, two or more HIGH. The extractor never answers CRITICAL.
\<close>

theorem fraudRisk_by_token_count:
  "fraudRisk (parseAnalysisMetrics d) = spec_fraudRisk d \<and>
   fraudRisk (parseAnalysisMetrics d) \<noteq> CRITICAL"
proof -
  have "spec_fraudRisk d \<noteq> CRITICAL"
    by (simp add: spec_fraudRisk_def Let_def)
  then show ?thesis by (simp add: fraudRisk_refines)
qed

text \<open>
  C4, as the code has it. The primary impact is the trimmed captured text of the first row
  \<open>| Primary Impact Zone | <captured text> |\<close> of the document (least start, then shortest
  capture, all on one line), and \<open>Unknown\<close> when there is no such row. If the document contains
  \<open>| Primary Impact Zone | Rear Bumper |\<close> and no row of the pattern starts before it, the
  primary impact is \<open>Rear Bumper\<close>.
\<close>

theorem primaryImpact_first_row:
  "primaryImpact (parseAnalysisMetrics d) = spec_primaryImpact d \<and>
   (d = p @ ''| Primary Impact Zone | Rear Bumper |'' @ r \<and> no_row_before d (length p) \<longrightarrow>
    primaryImpact (parseAnalysisMetrics d) = ''Rear Bumper'')"
proof (intro conjI impI)
  show "primaryImpact (parseAnalysisMetrics d) = spec_primaryImpact d"
    by (rule primaryImpact_refines)
next
  assume "d = p @ ''| Primary Impact Zone | Rear Bumper |'' @ r \<and> no_row_before d (length p)"
  then have "spec_primaryImpact d = ''Rear Bumper''"
    using rear_bumper_row [of d p r] by blast
  then show "primaryImpact (parseAnalysisMetrics d) = ''Rear Bumper''"
    unfolding primaryImpact_refines .
qed

theorem primaryImpact_first_row_witness:
  "one_row_report = ''# '' @ ''| Primary Impact Zone | Rear Bumper |'' @ '' x'' \<and>
   no_row_before one_row_report (length ''# '') \<and>
   primaryImpact (parseAnalysisMetrics one_row_report) = ''Rear Bumper''"
proof -
  have a: "one_row_report = ''# '' @ ''| Primary Impact Zone | Rear Bumper |'' @ '' x''"
    by (simp add: one_row_report_def)
  have b: "no_row_before one_row_report (length ''# '')"
    unfolding one_row_report_def by code_simp
  show ?thesis
    using primaryImpact_first_row [of one_row_report "''# ''" "'' x''"] a b by blast
qed

text \<open>
  C4, as the claim words it, promises \<open>Rear Bumper\<close> for every document that contains the row.
  With another row of the pattern before it the extractor takes the earlier one.
\<close>

theorem primaryImpact_later_row_counterexample:
  "js_includes two_row_report ''| Primary Impact Zone | Rear Bumper |'' \<and>
   primaryImpact (parseAnalysisMetrics two_row_report) = ''Hood''"
  unfolding two_row_report_def by code_simp

text \<open>
  C5, as the code has it. When the remote call returns a response whose text is empty or
  absent, \<open>analyzeAccident\<close> does not fail: it returns the fixed text
  \<open>Analysis failed to generate content.\<close> It fails exactly when no API key is configured, an
  attached image cannot be read, or the remote call itself raises.
\<close>

theorem analyzeAccident_empty_response:
  "(\<not> falsy_string k \<and> encode_images (images inp) = Inr ps \<and>
    svc (analysisRequest inp ps) = Inr response \<and> falsy_string (response_text response) \<longrightarrow>
    analyzeAccident k svc inp = Inr ''Analysis failed to generate content.'') \<and>
   (isl (analyzeAccident k svc inp) \<longleftrightarrow>
      falsy_string k \<or> isl (encode_images (images inp)) \<or>
      (\<exists>ps. encode_images (images inp) = Inr ps \<and> isl (svc (analysisRequest inp ps))))"
proof (intro conjI impI)
  assume "\<not> falsy_string k \<and> encode_images (images inp) = Inr ps \<and>
    svc (analysisRequest inp ps) = Inr response \<and> falsy_string (response_text response)"
  then show "analyzeAccident k svc inp = Inr ''Analysis failed to generate content.''"
    by (simp add: analyzeAccident_def)
next
  show "isl (analyzeAccident k svc inp) \<longleftrightarrow>
      falsy_string k \<or> isl (encode_images (images inp)) \<or>
      (\<exists>ps. encode_images (images inp) = Inr ps \<and> isl (svc (analysisRequest inp ps)))"
    by (rule analyze_fails_iff)
qed

theorem analyzeAccident_empty_response_witness:
  "\<not> falsy_string (Some ''key'') \<and> encode_images (images scenario_input) = Inr [] \<and>
   empty_text_service (analysisRequest scenario_input []) = Inr empty_response \<and>
   falsy_string (response_text empty_response) \<and>
   analyzeAccident (Some ''key'') empty_text_service scenario_input =
     Inr ''Analysis failed to generate content.''"
proof -
  have h: "\<not> falsy_string (Some ''key'') \<and> encode_images (images scenario_input) = Inr [] \<and>
    empty_text_service (analysisRequest scenario_input []) = Inr empty_response \<and>
    falsy_string (response_text empty_response)"
    by (simp add: falsy_string_def scenario_input_def empty_text_service_def empty_response_def)
  then show ?thesis
    using analyzeAccident_empty_response
      [of "Some ''key''" scenario_input "[]" empty_text_service empty_response]
    by blast
qed

text \<open>
  C5, as the claim words it, has \<open>analyzeAccident\<close> raise on an empty response text. With a
  service that answers with the empty text it returns a string.
\<close>

theorem analyzeAccident_empty_response_counterexample:
  "response_text empty_response = Some [] \<and>
   \<not> isl (analyzeAccident (Some ''key'') empty_text_service scenario_input)"
  by (simp add: analyzeAccident_def falsy_string_def scenario_input_def empty_text_service_def
      empty_response_def)

text \<open>
  C6. A submit from the idle state ends in ERROR exactly when the analysis call fails, and
  then the result is still unset; otherwise it ends in COMPLETE. When the analysis call
  succeeds and the diagram call raises or its response holds no image, the flow ends in
  COMPLETE with a result whose diagram is unset.
\<close>

theorem submit_outcome:
  assumes "reachable app" and "appState app = IDLE"
  shows "(appState (handleAnalysis k svc now inp app) = ERROR \<longleftrightarrow>
          isl (analyzeAccident k svc inp)) \<and>
         (isl (analyzeAccident k svc inp) \<longrightarrow>
          result (handleAnalysis k svc now inp app) = None) \<and>
         (\<not> isl (analyzeAccident k svc inp) \<longrightarrow>
          appState (handleAnalysis k svc now inp app) = COMPLETE \<and>
          result (handleAnalysis k svc now inp app) \<noteq> None) \<and>
         (\<not> isl (analyzeAccident k svc inp) \<and> diagram_call_fails svc inp \<longrightarrow>
          appState (handleAnalysis k svc now inp app) = COMPLETE \<and>
          map_option diagram (result (handleAnalysis k svc now inp app)) = Some None)"
proof (cases "analyzeAccident k svc inp")
  case (Inl e)
  have "result app = None"
    using assms reachable_result by simp
  moreover have "isl (analyzeAccident k svc inp)" using Inl by simp
  ultimately show ?thesis
    using handleAnalysis_error [of k svc inp now app] by simp
next
  case (Inr md)
  have c: "appState (handleAnalysis k svc now inp app) = COMPLETE"
    and r: "result (handleAnalysis k svc now inp app) =
       Some \<lparr>markdown = md, diagram = generateImpactDiagram k svc inp, timestamp = now,
             metrics = parseAnalysisMetrics md\<rparr>"
    using handleAnalysis_complete [OF Inr] by simp_all
  show ?thesis
    using Inr c r diagram_absent [of svc inp k] by auto
qed

theorem submit_outcome_witness:
  "reachable initialApp \<and> appState initialApp = IDLE \<and>
   \<not> isl (analyzeAccident (Some ''key'') report_only_service scenario_input) \<and>
   diagram_call_fails report_only_service scenario_input \<and>
   appState (handleAnalysis (Some ''key'') report_only_service 0 scenario_input initialApp) = COMPLETE \<and>
   map_option diagram
     (result (handleAnalysis (Some ''key'') report_only_service 0 scenario_input initialApp)) =
   Some None \<and>
   isl (analyzeAccident None report_only_service scenario_input) \<and>
   appState (handleAnalysis None report_only_service 0 scenario_input initialApp) = ERROR \<and>
   result (handleAnalysis None report_only_service 0 scenario_input initialApp) = None"
proof -
  have a: "reachable initialApp" by (rule reachable.init)
  have b: "appState initialApp = IDLE" by (simp add: initialApp_def)
  have c: "\<not> isl (analyzeAccident (Some ''key'') report_only_service scenario_input)"
    by (simp add: analyzeAccident_def falsy_string_def scenario_input_def
        report_only_service_def analysisRequest_def)
  have d: "diagram_call_fails report_only_service scenario_input"
    by (simp add: diagram_call_fails_def report_only_service_def diagramRequest_def)
  have e: "isl (analyzeAccident None report_only_service scenario_input)"
    by (simp add: analyzeAccident_def falsy_string_def)
  show ?thesis
    using submit_outcome [OF a b, of "Some ''key''" report_only_service 0 scenario_input]
      submit_outcome [OF a b, of None report_only_service 0 scenario_input] a b c d e
    by blast
qed

text \<open>
  C7. The claim bounds the severity score by 10, as the comment on the field does. On a
  report that rates the impact 11/10 the extractor returns 11.
\<close>

theorem severity_off_scale:
  "severityScore (parseAnalysisMetrics off_scale_report) = Num 11"
  unfolding off_scale_report_def by code_simp

text \<open>
  C9. The impact-side hint is chosen over the lowercased description with a fixed
  precedence: the right-side keywords (right, passenger, rh) before the left-side keywords
  (left, driver, lh), those before the rear keywords (rear, back), those before front. A
  description that contains both \<open>right\<close> and \<open>rear\<close> gets the right-side instruction.
\<close>

theorem locationInstruction_precedence:
  "(mentions desc [''right'', ''passenger'', ''rh''] \<longrightarrow>
      locationInstruction desc = RIGHT_INSTRUCTION) \<and>
   (\<not> mentions desc [''right'', ''passenger'', ''rh''] \<and>
    mentions desc [''left'', ''driver'', ''lh''] \<longrightarrow>
      locationInstruction desc = LEFT_INSTRUCTION) \<and>
   (\<not> mentions desc [''right'', ''passenger'', ''rh''] \<and>
    \<not> mentions desc [''left'', ''driver'', ''lh''] \<and>
    mentions desc [''rear'', ''back''] \<longrightarrow>
      locationInstruction desc = REAR_INSTRUCTION) \<and>
   (\<not> mentions desc [''right'', ''passenger'', ''rh''] \<and>
    \<not> mentions desc [''left'', ''driver'', ''lh''] \<and>
    \<not> mentions desc [''rear'', ''back''] \<and>
    mentions desc [''front''] \<longrightarrow>
      locationInstruction desc = FRONT_INSTRUCTION) \<and>
   (js_includes desc ''right'' \<and> js_includes desc ''rear'' \<longrightarrow>
      locationInstruction desc = RIGHT_INSTRUCTION)"
proof -
  have "mentions desc [''right'', ''passenger'', ''rh'']" if "js_includes desc ''right''"
    using that by (rule right_mentioned)
  then show ?thesis
    unfolding locationInstruction_cases by simp
qed

theorem locationInstruction_precedence_witness:
  "mentions desc_right_rear [''right'', ''passenger'', ''rh''] \<and>
   js_includes desc_right_rear ''right'' \<and> js_includes desc_right_rear ''rear'' \<and>
   locationInstruction desc_right_rear = RIGHT_INSTRUCTION \<and>
   locationInstruction desc_driver_back = LEFT_INSTRUCTION \<and>
   locationInstruction desc_back_front = REAR_INSTRUCTION \<and>
   locationInstruction desc_front = FRONT_INSTRUCTION"
proof -
  have a: "mentions desc_right_rear [''right'', ''passenger'', ''rh'']"
    by code_simp
  have b: "js_includes desc_right_rear ''right'' \<and> js_includes desc_right_rear ''rear''"
    by code_simp
  have c: "\<not> mentions desc_driver_back [''right'', ''passenger'', ''rh''] \<and>
           mentions desc_driver_back [''left'', ''driver'', ''lh'']"
    by code_simp
  have d: "\<not> mentions desc_back_front [''right'', ''passenger'', ''rh''] \<and>
           \<not> mentions desc_back_front [''left'', ''driver'', ''lh''] \<and>
           mentions desc_back_front [''rear'', ''back'']"
    by code_simp
  have e: "\<not> mentions desc_front [''right'', ''passenger'', ''rh''] \<and>
           \<not> mentions desc_front [''left'', ''driver'', ''lh''] \<and>
           \<not> mentions desc_front [''rear'', ''back''] \<and>
           mentions desc_front [''front'']"
    by code_simp
  have r1: "locationInstruction desc_right_rear = RIGHT_INSTRUCTION"
    using locationInstruction_precedence [of desc_right_rear, THEN conjunct2, THEN conjunct2,
        THEN conjunct2, THEN conjunct2] b
    by (rule mp)
  have r2: "locationInstruction desc_driver_back = LEFT_INSTRUCTION"
    using locationInstruction_precedence [of desc_driver_back, THEN conjunct2, THEN conjunct1] c
    by (rule mp)
  have r3: "locationInstruction desc_back_front = REAR_INSTRUCTION"
    using locationInstruction_precedence [of desc_back_front, THEN conjunct2, THEN conjunct2,
        THEN conjunct1] d
    by (rule mp)
  have r4: "locationInstruction desc_front = FRONT_INSTRUCTION"
    using locationInstruction_precedence [of desc_front, THEN conjunct2, THEN conjunct2,
        THEN conjunct2, THEN conjunct1] e
    by (rule mp)
  show ?thesis
    using a b r1 r2 r3 r4 by (intro conjI) (simp_all only:)
qed

text \<open>
  C10. Whenever \<open>generateImpactDiagram\<close> returns an image, the returned string is the prefix
  \<open>data:image/png;base64,\<close> followed by the data of the first part of the response that has
  inline data; the MIME types the service reports have no influence on the result.
\<close>

theorem diagram_data_uri:
  assumes "generateImpactDiagram k svc inp = Some img"
  shows "(\<exists>response pre p blob post.
            svc (diagramRequest inp) = Inr response \<and>
            response_parts response = pre @ p # post \<and>
            list_all (\<lambda>q. inlineData q = None) pre \<and> inlineData p = Some blob \<and>
            img = ''data:image/png;base64,'' @ toString_arg (data blob)) \<and>
         generateImpactDiagram k (with_mime f svc) inp = Some img"
proof -
  from assms obtain response where r: "svc (diagramRequest inp) = Inr response"
    and f: "first_inline_image (response_parts response) = Some img"
    by (auto simp: generateImpactDiagram_def split: if_splits sum.splits)
  from first_inline_image_Some [OF f] r
  have "\<exists>response pre p blob post.
            svc (diagramRequest inp) = Inr response \<and>
            response_parts response = pre @ p # post \<and>
            list_all (\<lambda>q. inlineData q = None) pre \<and> inlineData p = Some blob \<and>
            img = ''data:image/png;base64,'' @ toString_arg (data blob)"
    by blast
  then show ?thesis using assms by (simp add: diagram_mime_independent)
qed

theorem diagram_data_uri_witness:
  "generateImpactDiagram (Some ''key'') jpeg_service scenario_input =
     Some ''data:image/png;base64,QUJD'' \<and>
   generateImpactDiagram (Some ''key'') (with_mime (\<lambda>m. Some ''image/png'') jpeg_service)
     scenario_input = Some ''data:image/png;base64,QUJD''"
proof -
  have h: "generateImpactDiagram (Some ''key'') jpeg_service scenario_input =
     Some ''data:image/png;base64,QUJD''"
    by (simp add: generateImpactDiagram_def falsy_string_def jpeg_service_def jpeg_response_def
        response_parts_def toString_arg_def)
  show ?thesis
    using diagram_data_uri [OF h, of "\<lambda>m. Some ''image/png''"] h by simp
qed

end
